theory Spec2Isabelle
  imports Main "HOL-Library.Sublist"
begin

section \<open>JavaScript string primitives\<close>

text \<open>
  Strings are modelled as lists of 8-bit characters, read as the code units
  \<open>U+0000\<close> to \<open>U+00FF\<close>. Inside that range the white space of
  \<^verbatim>\<open>String.prototype.trim\<close> and of the regular expression class \<^verbatim>\<open>\s\<close>
  is TAB, LF, VT, FF, CR, SPACE and NBSP, and \<^verbatim>\<open>toLowerCase\<close> maps
  \<open>A-Z\<close> and the upper-case letters \<open>U+00C0\<close> to \<open>U+00DE\<close> (without
  the multiplication sign \<open>U+00D7\<close>) thirty-two code points up.
\<close>

definition is_space :: "char \<Rightarrow> bool" where
  "is_space c = (let n = (of_char c :: nat) in
     n = 9 \<or> n = 10 \<or> n = 11 \<or> n = 12 \<or> n = 13 \<or> n = 32 \<or> n = 160)"

definition lower_char :: "char \<Rightarrow> char" where
  "lower_char c = (let n = (of_char c :: nat) in
     if 65 \<le> n \<and> n \<le> 90 then char_of (n + 32)
     else if 192 \<le> n \<and> n \<le> 222 \<and> n \<noteq> 215 then char_of (n + 32)
     else c)"

definition toLowerCase :: "string \<Rightarrow> string" where
  "toLowerCase s = map lower_char s"

definition trim :: "string \<Rightarrow> string" where
  "trim s = rev (dropWhile is_space (rev (dropWhile is_space s)))"

text \<open>\<^verbatim>\<open>[a-z0-9]\<close>, the letters and digits a slug is made of.\<close>

definition is_lower_alnum :: "char \<Rightarrow> bool" where
  "is_lower_alnum c = (let n = (of_char c :: nat) in
     (97 \<le> n \<and> n \<le> 122) \<or> (48 \<le> n \<and> n \<le> 57))"

text \<open>A letter or digit of either case: what lower-cases into \<^verbatim>\<open>[a-z0-9]\<close>.\<close>

definition is_alnum :: "char \<Rightarrow> bool" where
  "is_alnum c = is_lower_alnum (lower_char c)"

definition is_hyphen :: "char \<Rightarrow> bool" where
  "is_hyphen c = (c = CHR ''-'')"

text \<open>
  \<^verbatim>\<open>s.replace(/C+/g, '-')\<close> for a character class \<open>C\<close>: every maximal run of
  characters of the class is replaced by one hyphen.
\<close>

function replace_runs :: "(char \<Rightarrow> bool) \<Rightarrow> string \<Rightarrow> string" where
  "replace_runs P [] = []"
| "replace_runs P (c # cs) =
     (if P c then CHR ''-'' # replace_runs P (dropWhile P cs)
      else c # replace_runs P cs)"
  by pat_completeness auto
termination
  by (relation "measure (\<lambda>(P, s). length s)")
     (auto simp: length_dropWhile_le le_imp_less_Suc)

text \<open>\<^verbatim>\<open>s.replace(/^-+|-+$/g, '')\<close>: the leading and the trailing run of hyphens go.\<close>

definition strip_hyphens :: "string \<Rightarrow> string" where
  "strip_hyphens s = rev (dropWhile is_hyphen (rev (dropWhile is_hyphen s)))"

section \<open>SEO slug utilities\<close>

text \<open>
  \<^verbatim>\<open>toSlug\<close>: trim, lower-case, remove every character outside
  \<^verbatim>\<open>[a-z0-9\s-]\<close>, turn runs of white space into a hyphen, collapse runs of
  hyphens, strip hyphens at both ends.
\<close>

definition toSlug :: "string \<Rightarrow> string" where
  "toSlug v =
     strip_hyphens
       (replace_runs is_hyphen
         (replace_runs is_space
           (filter (\<lambda>c. is_lower_alnum c \<or> is_space c \<or> is_hyphen c)
             (toLowerCase (trim v)))))"

text \<open>What a slug looks like: letters, digits and single hyphens, none at either end.\<close>

definition slug_char :: "char \<Rightarrow> bool" where
  "slug_char c = (is_lower_alnum c \<or> is_hyphen c)"

fun no_hyphen_run :: "string \<Rightarrow> bool" where
  "no_hyphen_run (a # b # cs) = (\<not> (is_hyphen a \<and> is_hyphen b) \<and> no_hyphen_run (b # cs))"
| "no_hyphen_run _ = True"

definition is_slug :: "string \<Rightarrow> bool" where
  "is_slug s = (list_all slug_char s \<and> no_hyphen_run s \<and>
     (case s of [] \<Rightarrow> True | c # cs \<Rightarrow> \<not> is_hyphen c \<and> \<not> is_hyphen (last s)))"

subsection \<open>\<^verbatim>\<open>includes\<close>, \<^verbatim>\<open>startsWith\<close>, \<^verbatim>\<open>indexOf\<close>, \<^verbatim>\<open>split\<close>, \<^verbatim>\<open>join\<close>\<close>

definition str_includes :: "string \<Rightarrow> string \<Rightarrow> bool" where
  "str_includes s sub = sublist sub s"

definition startsWith :: "string \<Rightarrow> string \<Rightarrow> bool" where
  "startsWith s p = prefix p s"

fun indexOf :: "string \<Rightarrow> string \<Rightarrow> nat option" where
  "indexOf [] sep = (if sep = [] then Some 0 else None)"
| "indexOf (c # cs) sep =
     (if prefix sep (c # cs) then Some 0 else map_option Suc (indexOf cs sep))"

text \<open>
  \<^verbatim>\<open>s.split(sep)\<close> with a string separator: the pieces between the occurrences of
  the separator, found from the left and not overlapping; with the empty separator,
  the code units of \<open>s\<close>.
\<close>

function js_split :: "string \<Rightarrow> string \<Rightarrow> string list" where
  "js_split s sep =
     (if sep = [] then map (\<lambda>c. [c]) s
      else case indexOf s sep of
        None \<Rightarrow> [s]
      | Some i \<Rightarrow> take i s # js_split (drop (i + length sep) s) sep)"
  by pat_completeness auto
termination
proof (relation "measure (\<lambda>(s, sep). length s)")
  show "wf (measure (\<lambda>(s, sep). length s))" by simp
next
  fix s sep :: string and i :: nat
  assume "sep \<noteq> []" and "indexOf s sep = Some i"
  then have "s \<noteq> []" by (cases s) auto
  with \<open>sep \<noteq> []\<close> show "((drop (i + length sep) s, sep), (s, sep)) \<in> measure (\<lambda>(s, sep). length s)"
    by simp
qed

declare js_split.simps [simp del]

fun join :: "string list \<Rightarrow> string \<Rightarrow> string" where
  "join [] sep = []"
| "join [x] sep = x"
| "join (x # y # ys) sep = x @ sep @ join (y # ys) sep"

text \<open>\<^verbatim>\<open>x || null\<close> on a string: the empty string is falsy.\<close>

definition or_null :: "string \<Rightarrow> string option" where
  "or_null s = (if s = [] then None else Some s)"

text \<open>Truthiness of a \<^verbatim>\<open>string | null | undefined\<close>.\<close>

definition truthy :: "string option \<Rightarrow> bool" where
  "truthy v = (case v of None \<Rightarrow> False | Some s \<Rightarrow> s \<noteq> [])"

text \<open>A value inside a template literal: \<^verbatim>\<open>`${null}`\<close> is the text \<^verbatim>\<open>null\<close>.\<close>

definition interpolate :: "string option \<Rightarrow> string" where
  "interpolate v = (case v of None \<Rightarrow> ''null'' | Some s \<Rightarrow> s)"

datatype js_error = TypeError

subsection \<open>\<^verbatim>\<open>buildDirectorySeoPath\<close>\<close>

record seo_opts =
  serviceName :: "string option"
  cityName :: "string option"
  stateName :: "string option"

text \<open>\<^verbatim>\<open>opts.name ? toSlug(opts.name) : null\<close>\<close>

definition slug_of_name :: "string option \<Rightarrow> string option" where
  "slug_of_name n =
     (case n of None \<Rightarrow> None | Some v \<Rightarrow> if v \<noteq> [] then Some (toSlug v) else None)"

definition buildDirectorySeoPath :: "seo_opts \<Rightarrow> string option" where
  "buildDirectorySeoPath opts =
     (let serviceSlug = slug_of_name (serviceName opts);
          citySlug = slug_of_name (cityName opts);
          stateSlug = slug_of_name (stateName opts)
      in if truthy serviceSlug \<and> truthy citySlug \<and> truthy stateSlug then
           Some (''/directory/'' @ interpolate serviceSlug @ ''-in-'' @ interpolate citySlug
                 @ ''-'' @ interpolate stateSlug)
         else if truthy serviceSlug then
           Some (''/directory/'' @ interpolate serviceSlug)
         else None)"

text \<open>
  A service, city or state name is effectively present when it is given and its slug is
  not empty: this is when the builder's \<^verbatim>\<open>serviceSlug && ...\<close> tests succeed.
\<close>

definition effectively_present :: "string option \<Rightarrow> bool" where
  "effectively_present n = (case n of None \<Rightarrow> False | Some v \<Rightarrow> toSlug v \<noteq> [])"

subsection \<open>\<^verbatim>\<open>parseSeoSlug\<close>\<close>

record slug_triple =
  serviceSlug :: "string option"
  citySlug :: "string option"
  stateSlug :: "string option"

text \<open>
  The heuristic on the location part. \<^verbatim>\<open>parts.slice(-2)\<close> are the last two
  tokens, \<^verbatim>\<open>parts.slice(0, -2)\<close> the tokens before them.
\<close>

definition parseSeoSlug :: "string list \<Rightarrow> js_error + slug_triple" where
  "parseSeoSlug slugArray =
     (let slug = join slugArray ''-'' in
      if str_includes slug ''-in-'' then
        (case js_split slug ''-in-'' of
           servicePart # locationPart # _ \<Rightarrow>
             (let parts = js_split locationPart ''-'' in
              if length parts \<ge> 3 then
                Inr \<lparr>serviceSlug = Some servicePart,
                     citySlug = or_null (join (take (length parts - 2) parts) ''-''),
                     stateSlug = Some (join (drop (length parts - 2) parts) ''-'')\<rparr>
              else if length parts = 2 then
                Inr \<lparr>serviceSlug = Some servicePart,
                     citySlug = Some (parts ! 0), stateSlug = Some (parts ! 1)\<rparr>
              else if length parts = 1 then
                Inr \<lparr>serviceSlug = Some servicePart,
                     citySlug = Some (parts ! 0), stateSlug = None\<rparr>
              else
                Inr \<lparr>serviceSlug = Some servicePart, citySlug = None, stateSlug = None\<rparr>)
         | _ \<Rightarrow> Inl TypeError)
      else Inr \<lparr>serviceSlug = Some slug, citySlug = None, stateSlug = None\<rparr>)"


text \<open>
  The round trip of the specification:
  \<^verbatim>\<open>parseSeoSlug(buildSeoPath(x).split('/directory/')[1].split('-'))\<close>.
  Calling \<^verbatim>\<open>split\<close> on \<^verbatim>\<open>null\<close> or on \<^verbatim>\<open>undefined\<close> throws.
\<close>

definition seo_round_trip :: "seo_opts \<Rightarrow> js_error + slug_triple" where
  "seo_round_trip x =
     (case buildDirectorySeoPath x of
        None \<Rightarrow> Inl TypeError
      | Some path \<Rightarrow>
          (case js_split path ''/directory/'' of
             _ # rest # _ \<Rightarrow> parseSeoSlug (js_split rest ''-'')
           | _ \<Rightarrow> Inl TypeError))"

section \<open>Category resolver\<close>

text \<open>
  Modelled from the spec: the type \<^verbatim>\<open>ServiceCategory\<close> is declared outside the
  files at hand; the catalog is an array of \<^verbatim>\<open>{ name, subCategories: [{ name }] }\<close>.
  A missing \<^verbatim>\<open>subCategories\<close> array is the empty list here: the search skips both.
\<close>

record sub_category =
  sub_name :: string

record service_category =
  name :: string
  subCategories :: "sub_category list"

record directory_category_path =
  headCategory :: "string option"
  microCategory :: "string option"
  pathServiceName :: "string option"

text \<open>\<^verbatim>\<open>s.toLowerCase().trim()\<close>\<close>

definition normalized :: "string \<Rightarrow> string" where
  "normalized s = trim (toLowerCase s)"

text \<open>The \<^verbatim>\<open>for (const category of categories)\<close> loop, with its two early returns.\<close>

fun search_categories :: "string \<Rightarrow> service_category list \<Rightarrow> directory_category_path" where
  "search_categories sn [] =
     \<lparr>headCategory = None, microCategory = None, pathServiceName = Some sn\<rparr>"
| "search_categories sn (category # rest) =
     (if normalized (name category) = normalized sn then
        \<lparr>headCategory = Some (name category), microCategory = None, pathServiceName = Some sn\<rparr>
      else case find (\<lambda>sub. normalized (sub_name sub) = normalized sn) (subCategories category) of
        Some foundSubCategory \<Rightarrow>
          \<lparr>headCategory = Some (name category),
           microCategory = Some (sub_name foundSubCategory), pathServiceName = Some sn\<rparr>
      | None \<Rightarrow> search_categories sn rest)"

definition resolveCategoryPathForService ::
  "string option \<Rightarrow> service_category list \<Rightarrow> directory_category_path" where
  "resolveCategoryPathForService serviceName' categories =
     (case serviceName' of
        None \<Rightarrow> \<lparr>headCategory = None, microCategory = None, pathServiceName = None\<rparr>
      | Some sn \<Rightarrow>
          if sn = [] \<or> categories = [] then
            \<lparr>headCategory = None, microCategory = None, pathServiceName = or_null sn\<rparr>
          else search_categories sn categories)"

text \<open>Whether a catalog entry matches a service name by its own name, or by a subcategory.\<close>

definition head_matches :: "string \<Rightarrow> service_category \<Rightarrow> bool" where
  "head_matches sn c = (normalized (name c) = normalized sn)"

definition sub_matches :: "string \<Rightarrow> service_category \<Rightarrow> bool" where
  "sub_matches sn c = list_ex (\<lambda>sub. normalized (sub_name sub) = normalized sn) (subCategories c)"

section \<open>Subdomain middleware\<close>

text \<open>
  Of the request the middleware reads the \<^verbatim>\<open>host\<close> header and \<^verbatim>\<open>req.nextUrl\<close>; of
  the URL it reads the path and writes host name, port and path. Assignments to the
  fields of the cloned URL are plain field updates here. The \<^verbatim>\<open>matcher\<close> of the
  configuration keeps \<^verbatim>\<open>/_next/static\<close>, \<^verbatim>\<open>/_next/image\<close> and
  \<^verbatim>\<open>/favicon.ico\<close> away from the middleware; every other path reaches it.
\<close>

record next_url =
  hostname :: string
  port :: string
  pathname :: string

record request =
  host_header :: "string option"
  nextUrl :: next_url

datatype response = Next | Redirect next_url nat | Rewrite next_url

text \<open>The stage of the middleware that produced the response, in the order of the code.\<close>

datatype stage =
  StaticAsset | AuthRedirect | DirectoryRedirect | AuthPassthrough
  | DirRewrite | MainRedirect | GenericRewrite | Default

definition MAIN_DOMAIN :: string where
  "MAIN_DOMAIN = ''indiantrademart.com''"

text \<open>
  The table is a plain object read with a string key; the keys are taken to be its own
  five, which leaves aside host names whose first label is a property of
  \<^verbatim>\<open>Object.prototype\<close>.
\<close>

definition SUBDOMAIN_MAP :: "string \<Rightarrow> string option" where
  "SUBDOMAIN_MAP = map_of
     [(''vendor'', ''/vendor''), (''buyer'', ''/buyer''), (''emp'', ''/employee''),
      (''dir'', ''/directory''), (''man'', ''/management'')]"

text \<open>
  \<^verbatim>\<open>/\.[^/]+$/.test(pathname)\<close>: a dot followed, up to the end of the path, by one
  or more characters that are not slashes.
\<close>

fun has_file_extension :: "string \<Rightarrow> bool" where
  "has_file_extension [] = False"
| "has_file_extension (c # cs) =
     ((c = CHR ''.'' \<and> cs \<noteq> [] \<and> CHR ''/'' \<notin> set cs) \<or> has_file_extension cs)"

text \<open>\<^verbatim>\<open>xs[0]\<close> and \<^verbatim>\<open>xs[1] || ''\<close> on the result of a split.\<close>

definition first_piece :: "string list \<Rightarrow> string" where
  "first_piece xs = (case xs of [] \<Rightarrow> [] | x # _ \<Rightarrow> x)"

definition second_piece :: "string list \<Rightarrow> string" where
  "second_piece xs = (case xs of _ # y # _ \<Rightarrow> y | _ \<Rightarrow> [])"

definition buildSubdomainRedirectUrl :: "request \<Rightarrow> string \<Rightarrow> string \<Rightarrow> string \<Rightarrow> next_url" where
  "buildSubdomainRedirectUrl req host hostname' sub =
     (let redirectUrl = nextUrl req;
          isLocalhost = str_includes hostname' ''localhost'';
          currentPort = second_piece (js_split host '':'')
      in if isLocalhost then
           (let u = redirectUrl\<lparr>hostname := sub @ ''.localhost''\<rparr>
            in if currentPort \<noteq> [] then u\<lparr>port := currentPort\<rparr> else u)
         else redirectUrl\<lparr>hostname := sub @ ''.'' @ MAIN_DOMAIN, port := []\<rparr>)"

definition reservedPrefixes :: "string list" where
  "reservedPrefixes =
     [''/directory'', ''/api'', ''/_next'', ''/dashboard'', ''/auth'', ''/static'',
      ''/assets'', ''/favicon'']"

definition reservedMainPrefixes :: "string list" where
  "reservedMainPrefixes =
     [''/api'', ''/_next'', ''/dashboard'', ''/auth'', ''/static'', ''/assets'', ''/favicon'',
      ''/directory'', ''/vendor'', ''/buyer'', ''/employee'', ''/management'']"

text \<open>\<^verbatim>\<open>prefixes.some((prefix) => pathname === prefix || pathname.startsWith(prefix + '/'))\<close>\<close>

definition is_reserved :: "string list \<Rightarrow> string \<Rightarrow> bool" where
  "is_reserved pres p = list_ex (\<lambda>pre. p = pre \<or> startsWith p (pre @ ''/'')) pres"

definition subdomain_of :: "request \<Rightarrow> string" where
  "subdomain_of req =
     (let host = (case host_header req of None \<Rightarrow> [] | Some h \<Rightarrow> h);
          hostname' = first_piece (js_split host '':'')
      in first_piece (js_split hostname' ''.''))"

definition middleware_trace :: "request \<Rightarrow> stage \<times> response" where
  "middleware_trace req =
     (let url = nextUrl req;
          p = pathname url
      in if has_file_extension p then (StaticAsset, Next)
      else
       (let host = (case host_header req of None \<Rightarrow> [] | Some h \<Rightarrow> h);
            hostname' = first_piece (js_split host '':'');
            subdomain = first_piece (js_split hostname' ''.'');
            isLocalhost = str_includes hostname' ''localhost'';
            baseDomain = (if isLocalhost then ''localhost'' else MAIN_DOMAIN);
            targetPath = SUBDOMAIN_MAP subdomain
        in if startsWith p ''/auth/vendor/'' \<and> subdomain \<noteq> ''vendor'' then
             (AuthRedirect, Redirect (buildSubdomainRedirectUrl req host hostname' ''vendor'') 307)
           else if startsWith p ''/auth/user/'' \<and> subdomain \<noteq> ''buyer'' then
             (AuthRedirect, Redirect (buildSubdomainRedirectUrl req host hostname' ''buyer'') 307)
           else if (p = ''/directory'' \<or> startsWith p ''/directory/'') \<and> subdomain \<noteq> ''dir'' then
             (DirectoryRedirect,
              Redirect (buildSubdomainRedirectUrl req host hostname' ''dir'') 307)
           else if startsWith p ''/auth/'' then (AuthPassthrough, Next)
           else if subdomain = ''dir'' \<and> p \<noteq> ''/'' \<and> \<not> is_reserved reservedPrefixes p
                   \<and> \<not> startsWith p ''/directory'' then
             (DirRewrite, Rewrite (url\<lparr>pathname := ''/directory'' @ p\<rparr>))
           else if (subdomain = [] \<or> subdomain = ''www'') \<and> p \<noteq> ''/''
                   \<and> \<not> is_reserved reservedMainPrefixes p then
             (MainRedirect,
              Redirect
                (if isLocalhost then
                   (let t = url\<lparr>hostname := ''dir.localhost''\<rparr>;
                        currentPort = second_piece (js_split host '':'')
                    in if currentPort \<noteq> [] then t\<lparr>port := currentPort\<rparr> else t)
                 else url\<lparr>hostname := ''dir.'' @ baseDomain, port := []\<rparr>)
                308)
           else
             (case targetPath of
                None \<Rightarrow> (Default, Next)
              | Some target \<Rightarrow>
                  if target \<noteq> [] \<and> \<not> startsWith p target
                     \<and> \<not> startsWith p ''/dashboard'' then
                    (GenericRewrite,
                     Rewrite (url\<lparr>pathname := target @ (if p = ''/'' then [] else p)\<rparr>))
                  else (Default, Next))))"

definition middleware :: "request \<Rightarrow> response" where
  "middleware req = snd (middleware_trace req)"

section \<open>Lead popup hook\<close>

text \<open>
  \<^verbatim>\<open>useLeadPopup\<close> is a React hook: three state cells, one ref, two effects and
  three handlers. The model keeps, for one instance of the hook, the state cells, the
  ref, the timeouts it has pending, and what React remembers of the auto-open effect
  (the dependency array of its last run, and whether that run returned a cleanup).

  React runs an event handler or a timer callback to its end, then renders again and
  runs the effects whose dependencies changed, the cleanup of the previous run first.
  One such round is one step of the model; a timeout fires between rounds, while it is
  pending. The delay of a timeout is kept, and a pending timeout may fire at any round:
  a property of all runs therefore holds for every delay.

  A state update requested inside an effect is not part of the round that ran the
  effect: React queues it and renders again later. The model keeps the one update of
  this kind, \<^verbatim>\<open>setHasSubmitted(true)\<close> of the storage check, in \<open>update_queued\<close>
  until the next render of the component (\<open>Rerender\<close>, with the same or with new
  options) applies it; handlers and timeouts can run in between.
  Handlers and effects run in the browser only, where \<^verbatim>\<open>window\<close> is defined.
\<close>

definition POPUP_SUBMITTED_KEY :: string where
  "POPUP_SUBMITTED_KEY = ''lead-popup-submitted-session''"

record lead_popup_options =
  autoOpenDelayMs :: "nat option"
  enabledAutoOpen :: "bool option"

text \<open>The defaults of the destructuring: 20000 ms, auto-open disabled.\<close>

definition delay_of :: "lead_popup_options \<Rightarrow> nat" where
  "delay_of opts = (case autoOpenDelayMs opts of None \<Rightarrow> 20000 | Some d \<Rightarrow> d)"

definition auto_open_of :: "lead_popup_options \<Rightarrow> bool" where
  "auto_open_of opts = (case enabledAutoOpen opts of None \<Rightarrow> False | Some b \<Rightarrow> b)"

record lead_popup =
  isOpen :: bool
  hasSubmitted :: bool
  hasDismissed :: bool
  update_queued :: bool
  timerRef :: "nat option"
  timers :: "(nat \<times> nat) list"
  next_timer :: nat
  has_cleanup :: bool
  last_deps :: "bool \<times> bool \<times> bool \<times> nat"
  options :: lead_popup_options
  sessionStorage :: "string \<Rightarrow> string option"
  mounted :: bool

datatype event =
  OpenPopup | ClosePopup | MarkAsSubmitted | TimerFires nat
  | Rerender lead_popup_options | Unmount

text \<open>\<^verbatim>\<open>[enabledAutoOpen, hasSubmitted, hasDismissed, autoOpenDelayMs]\<close>\<close>

definition current_deps :: "lead_popup \<Rightarrow> bool \<times> bool \<times> bool \<times> nat" where
  "current_deps w =
     (auto_open_of (options w), hasSubmitted w, hasDismissed w, delay_of (options w))"

text \<open>
  The body of the auto-open effect. \<^verbatim>\<open>setTimeout\<close> hands out a fresh positive
  number; the callback of the timeout is \<^verbatim>\<open>setIsOpen(true)\<close>.
\<close>

definition auto_open_effect :: "lead_popup \<Rightarrow> lead_popup" where
  "auto_open_effect w =
     (if \<not> auto_open_of (options w) \<or> hasSubmitted w \<or> hasDismissed w then
        w\<lparr>has_cleanup := False\<rparr>
      else
        w\<lparr>timerRef := Some (next_timer w),
          timers := timers w @ [(next_timer w, delay_of (options w))],
          next_timer := Suc (next_timer w),
          has_cleanup := True\<rparr>)"

text \<open>
  The cleanup the effect returns:
  \<^verbatim>\<open>if (timerRef.current) { clearTimeout(timerRef.current); timerRef.current = null }\<close>.
\<close>

definition clear_timer :: "lead_popup \<Rightarrow> lead_popup" where
  "clear_timer w =
     (case timerRef w of
        None \<Rightarrow> w
      | Some i \<Rightarrow>
          if i = 0 then w
          else w\<lparr>timers := filter (\<lambda>t. fst t \<noteq> i) (timers w), timerRef := None\<rparr>)"

definition run_cleanup :: "lead_popup \<Rightarrow> lead_popup" where
  "run_cleanup w = (if has_cleanup w then clear_timer w else w)"

text \<open>After a render: the auto-open effect runs again when its dependencies changed.\<close>

definition commit :: "lead_popup \<Rightarrow> lead_popup" where
  "commit w =
     (if current_deps w = last_deps w then w
      else auto_open_effect ((run_cleanup w)\<lparr>last_deps := current_deps w\<rparr>))"

text \<open>A render of the component: the queued update applies, then the effects run.\<close>

definition render :: "lead_popup \<Rightarrow> lead_popup" where
  "render w =
     commit (if update_queued w then w\<lparr>hasSubmitted := True, update_queued := False\<rparr> else w)"

text \<open>
  Mounting. The first render sees all three state cells \<^verbatim>\<open>false\<close>. Its effects
  run in order: the first reads the session flag and, when it is a non-empty string,
  requests \<^verbatim>\<open>setHasSubmitted(true)\<close>; the second is the auto-open effect, still with
  the values of the first render, so it arms the timeout even when the flag is set.
  Only the render of the queued update runs the cleanup that clears that timeout.
\<close>

definition mount :: "lead_popup_options \<Rightarrow> (string \<Rightarrow> string option) \<Rightarrow> lead_popup" where
  "mount opts storage =
     (let submitted = storage POPUP_SUBMITTED_KEY;
          w0 = \<lparr>isOpen = False, hasSubmitted = False, hasDismissed = False,
                update_queued = truthy submitted,
                timerRef = None, timers = [], next_timer = 1, has_cleanup = False,
                last_deps = (auto_open_of opts, False, False, delay_of opts),
                options = opts, sessionStorage = storage, mounted = True\<rparr>
      in auto_open_effect w0)"

definition pending :: "nat \<Rightarrow> lead_popup \<Rightarrow> bool" where
  "pending i w = list_ex (\<lambda>t. fst t = i) (timers w)"

text \<open>
  One round. On an unmounted instance the state setters do nothing, but
  \<^verbatim>\<open>markAsSubmitted\<close> still writes the session flag.
\<close>

definition step :: "event \<Rightarrow> lead_popup \<Rightarrow> lead_popup" where
  "step e w =
     (if \<not> mounted w then
        (case e of
           MarkAsSubmitted \<Rightarrow>
             w\<lparr>sessionStorage := (sessionStorage w)(POPUP_SUBMITTED_KEY \<mapsto> ''true'')\<rparr>
         | _ \<Rightarrow> w)
      else case e of
        OpenPopup \<Rightarrow> commit (w\<lparr>isOpen := True\<rparr>)
      | ClosePopup \<Rightarrow> commit (w\<lparr>isOpen := False, hasDismissed := True\<rparr>)
      | MarkAsSubmitted \<Rightarrow>
          commit (w\<lparr>isOpen := False, hasSubmitted := True,
                    sessionStorage := (sessionStorage w)(POPUP_SUBMITTED_KEY \<mapsto> ''true'')\<rparr>)
      | TimerFires i \<Rightarrow>
          if pending i w then
            commit (w\<lparr>timers := filter (\<lambda>t. fst t \<noteq> i) (timers w), isOpen := True\<rparr>)
          else w
      | Rerender opts \<Rightarrow> render (w\<lparr>options := opts\<rparr>)
      | Unmount \<Rightarrow> (run_cleanup w)\<lparr>mounted := False\<rparr>)"

fun run :: "lead_popup \<Rightarrow> event list \<Rightarrow> lead_popup" where
  "run w [] = w"
| "run w (e # es) = run (step e w) es"

text \<open>Whether, somewhere in a run, a timeout of the hook fired and opened the popup.\<close>

fun auto_opened :: "lead_popup \<Rightarrow> event list \<Rightarrow> bool" where
  "auto_opened w [] = False"
| "auto_opened w (e # es) =
     ((case e of TimerFires i \<Rightarrow> mounted w \<and> pending i w | _ \<Rightarrow> False)
      \<or> auto_opened (step e w) es)"

text \<open>
  What holds of every state the hook reaches, also between a handler and the render
  that follows it: timeout numbers are positive, and at most the timeout the ref points
  to is pending, armed by a run of the effect that saw neither \<^verbatim>\<open>hasSubmitted\<close>
  nor \<^verbatim>\<open>hasDismissed\<close> and returned its cleanup.
\<close>

definition timer_inv :: "lead_popup \<Rightarrow> bool" where
  "timer_inv w =
     (0 < next_timer w \<and>
      (timers w = [] \<or>
       (mounted w \<and> has_cleanup w
        \<and> \<not> fst (snd (last_deps w)) \<and> \<not> fst (snd (snd (last_deps w)))
        \<and> (case timerRef w of None \<Rightarrow> False
            | Some i \<Rightarrow> 0 < i \<and> map fst (timers w) = [i]))))"

text \<open>The effects have caught up with the state: nothing is left to run.\<close>

definition settled :: "lead_popup \<Rightarrow> bool" where
  "settled w = (last_deps w = current_deps w)"

text \<open>
  The popup has been submitted or dismissed and no timeout is pending: from here on
  only a manual \<^verbatim>\<open>openPopup\<close> can open it.
\<close>

definition closed_for_good :: "lead_popup \<Rightarrow> bool" where
  "closed_for_good w =
     ((hasSubmitted w \<or> hasDismissed w) \<and> timers w = [] \<and> timer_inv w \<and> settled w)"

section \<open>Properties of the slug codec\<close>

lemma hyphen_not_space: "is_hyphen c \<Longrightarrow> \<not> is_space c"
  by (simp add: is_hyphen_def is_space_def)

lemma alnum_not_space: "is_lower_alnum c \<Longrightarrow> \<not> is_space c"
  by (auto simp: is_lower_alnum_def is_space_def Let_def)

lemma slug_char_not_space: "slug_char c \<Longrightarrow> \<not> is_space c"
  using hyphen_not_space alnum_not_space by (auto simp: slug_char_def)

lemma lower_char_hyphen: "is_hyphen c \<Longrightarrow> lower_char c = c"
  by (simp add: is_hyphen_def lower_char_def)

lemma lower_char_alnum: "is_lower_alnum c \<Longrightarrow> lower_char c = c"
  by (auto simp: is_lower_alnum_def lower_char_def Let_def)

lemma lower_char_slug: "slug_char c \<Longrightarrow> lower_char c = c"
  using lower_char_hyphen lower_char_alnum by (auto simp: slug_char_def)

lemma replace_runs_none: "\<forall>c\<in>set s. \<not> P c \<Longrightarrow> replace_runs P s = s"
  by (induction s) auto

lemma replace_runs_Nil_iff: "replace_runs P s = [] \<longleftrightarrow> s = []"
  by (cases s) auto

lemma replace_runs_set:
  "set (replace_runs P s) \<subseteq> insert CHR ''-'' {c \<in> set s. \<not> P c}"
proof (induction P s rule: replace_runs.induct)
  case (1 P)
  then show ?case by simp
next
  case (2 P c cs)
  have "set (dropWhile P cs) \<subseteq> set cs" by (simp add: set_dropWhileD subsetI)
  with 2 show ?case by (auto split: if_splits)
qed

lemma replace_runs_hd:
  "s \<noteq> [] \<Longrightarrow> \<not> P (hd s) \<Longrightarrow> hd (replace_runs P s) = hd s"
  by (cases s) auto

lemma no_hyphen_run_Cons:
  "no_hyphen_run (a # s) \<longleftrightarrow> (s = [] \<or> \<not> (is_hyphen a \<and> is_hyphen (hd s))) \<and> no_hyphen_run s"
  by (cases s) auto

lemma replace_runs_no_hyphen_run: "no_hyphen_run (replace_runs is_hyphen s)"
proof (induction "is_hyphen" s rule: replace_runs.induct)
  case 1
  then show ?case by simp
next
  case (2 c cs)
  show ?case
  proof (cases "is_hyphen c")
    case True
    have "dropWhile is_hyphen cs = [] \<or> \<not> is_hyphen (hd (dropWhile is_hyphen cs))"
      using hd_dropWhile by blast
    then have "replace_runs is_hyphen (dropWhile is_hyphen cs) = [] \<or>
        \<not> is_hyphen (hd (replace_runs is_hyphen (dropWhile is_hyphen cs)))"
      by (metis replace_runs_hd replace_runs.simps(1))
    with True 2 show ?thesis by (simp add: no_hyphen_run_Cons)
  next
    case False
    with 2 show ?thesis by (simp add: no_hyphen_run_Cons)
  qed
qed

lemma replace_runs_hyphen_id: "no_hyphen_run s \<Longrightarrow> replace_runs is_hyphen s = s"
proof (induction s)
  case Nil
  then show ?case by simp
next
  case (Cons c cs)
  then have *: "replace_runs is_hyphen cs = cs" by (simp add: no_hyphen_run_Cons)
  show ?case
  proof (cases "is_hyphen c")
    case True
    with Cons.prems have "cs = [] \<or> \<not> is_hyphen (hd cs)" by (simp add: no_hyphen_run_Cons)
    then have "dropWhile is_hyphen cs = cs" by (simp add: dropWhile_eq_self_iff)
    moreover from True have "c = CHR ''-''" by (simp add: is_hyphen_def)
    ultimately show ?thesis using True * by simp
  next
    case False
    with * show ?thesis by simp
  qed
qed

lemma no_hyphen_run_append1:
  "no_hyphen_run (s @ [a]) \<longleftrightarrow> no_hyphen_run s \<and> (s = [] \<or> \<not> (is_hyphen (last s) \<and> is_hyphen a))"
  by (induction s rule: no_hyphen_run.induct) auto

lemma no_hyphen_run_rev: "no_hyphen_run (rev s) = no_hyphen_run s"
  by (induction s) (auto simp: no_hyphen_run_append1 no_hyphen_run_Cons last_rev hd_rev)

lemma no_hyphen_run_dropWhile: "no_hyphen_run s \<Longrightarrow> no_hyphen_run (dropWhile P s)"
  by (induction s) (auto simp: no_hyphen_run_Cons)

lemma no_hyphen_run_strip: "no_hyphen_run s \<Longrightarrow> no_hyphen_run (strip_hyphens s)"
  by (simp add: strip_hyphens_def no_hyphen_run_rev no_hyphen_run_dropWhile)

lemma last_dropWhile: "dropWhile P s \<noteq> [] \<Longrightarrow> last (dropWhile P s) = last s"
  by (induction s) (auto split: if_splits)

lemma strip_both_ends:
  assumes "rev (dropWhile P (rev (dropWhile P s))) \<noteq> []"
  shows "\<not> P (hd (rev (dropWhile P (rev (dropWhile P s)))))"
    and "\<not> P (last (rev (dropWhile P (rev (dropWhile P s)))))"
proof -
  let ?u = "dropWhile P s"
  let ?v = "dropWhile P (rev ?u)"
  from assms have v: "?v \<noteq> []" using rev_is_Nil_conv by blast
  have u: "?u \<noteq> []"
  proof
    assume "?u = []"
    then have "?v = []" by (simp only: rev.simps dropWhile.simps)
    with v show False by blast
  qed
  from v have "last ?v = last (rev ?u)" by (rule last_dropWhile)
  also have "\<dots> = hd ?u" using u by (simp add: last_rev)
  finally have "last ?v = hd ?u" .
  moreover have "\<not> P (hd ?u)" using u by (rule hd_dropWhile)
  ultimately show "\<not> P (hd (rev ?v))" using v by (simp add: hd_rev)
  show "\<not> P (last (rev ?v))" using v hd_dropWhile[of P "rev ?u"] by (simp add: last_rev)
qed

lemma strip_both_ends_id:
  assumes "s = [] \<or> (\<not> P (hd s) \<and> \<not> P (last s))"
  shows "rev (dropWhile P (rev (dropWhile P s))) = s"
proof -
  from assms have "dropWhile P s = s" by (auto simp: dropWhile_eq_self_iff)
  moreover from assms have "dropWhile P (rev s) = rev s"
    by (auto simp: dropWhile_eq_self_iff hd_rev)
  ultimately show ?thesis by simp
qed

lemma strip_both_ends_set: "set (rev (dropWhile P (rev (dropWhile P s)))) \<subseteq> set s"
  by (metis set_dropWhileD set_rev subsetI)

lemma toSlug_is_slug: "is_slug (toSlug v)"
proof -
  let ?f = "filter (\<lambda>c. is_lower_alnum c \<or> is_space c \<or> is_hyphen c) (toLowerCase (trim v))"
  let ?a = "replace_runs is_space ?f"
  let ?b = "replace_runs is_hyphen ?a"
  have "set ?a \<subseteq> insert CHR ''-'' {c \<in> set ?f. \<not> is_space c}" by (rule replace_runs_set)
  then have a: "\<forall>c\<in>set ?a. slug_char c" by (auto simp: slug_char_def is_hyphen_def)
  have "set ?b \<subseteq> insert CHR ''-'' {c \<in> set ?a. \<not> is_hyphen c}" by (rule replace_runs_set)
  with a have b: "\<forall>c\<in>set ?b. slug_char c" by (auto simp: slug_char_def is_hyphen_def)
  have "set (strip_hyphens ?b) \<subseteq> set ?b"
    unfolding strip_hyphens_def by (rule strip_both_ends_set)
  with b have 1: "list_all slug_char (toSlug v)" by (auto simp: toSlug_def list_all_iff)
  have 2: "no_hyphen_run (toSlug v)"
    unfolding toSlug_def by (intro no_hyphen_run_strip replace_runs_no_hyphen_run)
  have 3: "toSlug v \<noteq> [] \<Longrightarrow> \<not> is_hyphen (hd (toSlug v)) \<and> \<not> is_hyphen (last (toSlug v))"
    unfolding toSlug_def strip_hyphens_def using strip_both_ends[of is_hyphen] by blast
  from 1 2 3 show ?thesis by (auto simp: is_slug_def split: list.splits)
qed

lemma toSlug_fixes_slug:
  assumes "is_slug s"
  shows "toSlug s = s"
proof -
  from assms have chars: "\<forall>c\<in>set s. slug_char c" by (simp add: is_slug_def list_all_iff)
  from assms have ends: "s = [] \<or> (\<not> is_hyphen (hd s) \<and> \<not> is_hyphen (last s))"
    by (auto simp: is_slug_def split: list.splits)
  from assms have runs: "no_hyphen_run s" by (simp add: is_slug_def)
  have "s = [] \<or> (\<not> is_space (hd s) \<and> \<not> is_space (last s))"
    using chars slug_char_not_space by (cases s) auto
  then have 1: "trim s = s" unfolding trim_def by (rule strip_both_ends_id)
  have 2: "toLowerCase s = s"
    unfolding toLowerCase_def using chars by (simp add: lower_char_slug map_idI)
  have 3: "filter (\<lambda>c. is_lower_alnum c \<or> is_space c \<or> is_hyphen c) s = s"
    using chars by (auto simp: slug_char_def filter_id_conv)
  have 4: "replace_runs is_space s = s"
    using chars slug_char_not_space by (intro replace_runs_none) blast
  have 5: "replace_runs is_hyphen s = s" using runs by (rule replace_runs_hyphen_id)
  have 6: "strip_hyphens s = s" unfolding strip_hyphens_def using ends by (rule strip_both_ends_id)
  show ?thesis by (simp add: toSlug_def 1 2 3 4 5 6)
qed

text \<open>The slug of a name is empty exactly when the name has no letter and no digit.\<close>

lemma ball_dropWhile:
  "(\<forall>x\<in>set (dropWhile P xs). P x \<or> Q x) \<longleftrightarrow> (\<forall>x\<in>set xs. P x \<or> Q x)"
  by (induction xs) auto

lemma in_dropWhile: "x \<in> set xs \<Longrightarrow> \<not> P x \<Longrightarrow> x \<in> set (dropWhile P xs)"
  by (induction xs) auto

lemma strip_both_ends_Nil:
  "rev (dropWhile P (rev (dropWhile P s))) = [] \<longleftrightarrow> (\<forall>c\<in>set s. P c)"
proof -
  have "rev (dropWhile P (rev (dropWhile P s))) = [] \<longleftrightarrow> (\<forall>c\<in>set (dropWhile P s). P c)"
    by simp
  also have "\<dots> \<longleftrightarrow> (\<forall>c\<in>set s. P c)"
    using ball_dropWhile[of P s "\<lambda>_. False"] by simp
  finally show ?thesis .
qed

lemma replace_runs_all_hyphens:
  "(\<forall>c\<in>set (replace_runs P s). is_hyphen c) \<longleftrightarrow> (\<forall>c\<in>set s. P c \<or> is_hyphen c)"
proof (induction P s rule: replace_runs.induct)
  case (1 P)
  then show ?case by simp
next
  case (2 P c cs)
  show ?case
  proof (cases "P c")
    case True
    with 2 have "(\<forall>x\<in>set (replace_runs P (c # cs)). is_hyphen x)
        \<longleftrightarrow> (\<forall>x\<in>set (dropWhile P cs). P x \<or> is_hyphen x)"
      by (simp add: is_hyphen_def)
    also have "\<dots> \<longleftrightarrow> (\<forall>x\<in>set cs. P x \<or> is_hyphen x)"
      by (rule ball_dropWhile)
    finally show ?thesis using True by simp
  next
    case False
    with 2 show ?thesis by simp
  qed
qed

lemma set_trim_non_space:
  assumes "c \<in> set s" "\<not> is_space c"
  shows "c \<in> set (trim s)"
proof -
  from assms have "c \<in> set (rev (dropWhile is_space s))" by (simp add: in_dropWhile)
  then have "c \<in> set (dropWhile is_space (rev (dropWhile is_space s)))"
    using assms(2) by (rule in_dropWhile)
  then show ?thesis by (simp add: trim_def)
qed

lemma set_trim: "c \<in> set (trim s) \<Longrightarrow> c \<in> set s"
  unfolding trim_def by (metis set_dropWhileD set_rev)

lemma lower_char_space: "is_space c \<Longrightarrow> lower_char c = c"
  by (auto simp: is_space_def lower_char_def Let_def)

lemma space_not_alnum: "is_space c \<Longrightarrow> \<not> is_alnum c"
  using alnum_not_space lower_char_space by (auto simp: is_alnum_def)

lemma hyphen_not_alnum: "is_hyphen c \<Longrightarrow> \<not> is_lower_alnum c"
proof -
  assume "is_hyphen c"
  then have "c = CHR ''-''" by (simp add: is_hyphen_def)
  moreover have "\<not> is_lower_alnum CHR ''-''" by code_simp
  ultimately show ?thesis by simp
qed

lemma toSlug_Nil_iff: "toSlug v = [] \<longleftrightarrow> (\<forall>c\<in>set v. \<not> is_alnum c)"
proof -
  let ?l = "toLowerCase (trim v)"
  let ?f = "filter (\<lambda>c. is_lower_alnum c \<or> is_space c \<or> is_hyphen c) ?l"
  have "toSlug v = [] \<longleftrightarrow> (\<forall>c\<in>set (replace_runs is_hyphen (replace_runs is_space ?f)). is_hyphen c)"
    unfolding toSlug_def strip_hyphens_def by (rule strip_both_ends_Nil)
  also have "\<dots> \<longleftrightarrow> (\<forall>c\<in>set (replace_runs is_space ?f). is_hyphen c)"
    by (simp only: replace_runs_all_hyphens disj_absorb)
  also have "\<dots> \<longleftrightarrow> (\<forall>c\<in>set ?f. is_space c \<or> is_hyphen c)"
    by (rule replace_runs_all_hyphens)
  also have "\<dots> \<longleftrightarrow> (\<forall>c\<in>set ?l. \<not> is_lower_alnum c)"
  proof -
    have "(is_lower_alnum c \<or> is_space c \<or> is_hyphen c) \<longrightarrow> (is_space c \<or> is_hyphen c)
        \<longleftrightarrow> \<not> is_lower_alnum c" for c
      using alnum_not_space[of c] hyphen_not_alnum[of c] by blast
    then show ?thesis by (simp only: set_filter mem_Collect_eq Ball_def) blast
  qed
  also have "\<dots> \<longleftrightarrow> (\<forall>c\<in>set (trim v). \<not> is_alnum c)"
    by (simp add: toLowerCase_def is_alnum_def)
  also have "\<dots> \<longleftrightarrow> (\<forall>c\<in>set v. \<not> is_alnum c)"
  proof
    assume a: "\<forall>c\<in>set (trim v). \<not> is_alnum c"
    show "\<forall>c\<in>set v. \<not> is_alnum c"
    proof
      fix c assume "c \<in> set v"
      show "\<not> is_alnum c"
      proof (cases "is_space c")
        case True
        then show ?thesis by (rule space_not_alnum)
      next
        case False
        with \<open>c \<in> set v\<close> have "c \<in> set (trim v)" by (rule set_trim_non_space)
        with a show ?thesis by blast
      qed
    qed
  next
    assume "\<forall>c\<in>set v. \<not> is_alnum c"
    then show "\<forall>c\<in>set (trim v). \<not> is_alnum c" using set_trim by blast
  qed
  finally show ?thesis .
qed

lemma effectively_present_iff:
  "effectively_present n \<longleftrightarrow> (\<exists>v. n = Some v \<and> (\<exists>c\<in>set v. is_alnum c))"
  by (cases n) (simp_all add: effectively_present_def toSlug_Nil_iff)

text \<open>
  C10. \<^verbatim>\<open>toSlug\<close> is idempotent: a slug is made of \<^verbatim>\<open>[a-z0-9-]\<close> with single
  hyphens and none at either end, and on such a string every stage of \<^verbatim>\<open>toSlug\<close>
  (trimming, lower-casing, removing other characters, replacing white space, collapsing
  and stripping hyphens) changes nothing.
\<close>

theorem toSlug_idempotent: "toSlug (toSlug x) = toSlug x"
  by (rule toSlug_fixes_slug) (rule toSlug_is_slug)

section \<open>Properties of \<^verbatim>\<open>indexOf\<close>, \<^verbatim>\<open>split\<close> and \<^verbatim>\<open>join\<close>\<close>

lemma indexOf_None_iff: "indexOf s sep = None \<longleftrightarrow> \<not> sublist sep s"
  by (induction s) (auto simp: sublist_Cons_right)

lemma indexOf_bound: "indexOf s sep = Some i \<Longrightarrow> i + length sep \<le> length s"
proof (induction s arbitrary: i)
  case Nil
  then show ?case by (simp split: if_splits)
next
  case (Cons c cs)
  show ?case
  proof (cases "prefix sep (c # cs)")
    case True
    with Cons.prems have "i = 0" by simp
    with True show ?thesis using prefix_length_le by fastforce
  next
    case False
    with Cons.prems obtain j where "indexOf cs sep = Some j" "i = Suc j" by auto
    with Cons.IH show ?thesis by simp
  qed
qed

lemma indexOf_prefix: "indexOf s sep = Some i \<Longrightarrow> prefix sep (drop i s)"
proof (induction s arbitrary: i)
  case Nil
  then show ?case by (simp split: if_splits)
next
  case (Cons c cs)
  show ?case
  proof (cases "prefix sep (c # cs)")
    case True
    with Cons.prems show ?thesis by simp
  next
    case False
    with Cons.prems obtain j where "indexOf cs sep = Some j" "i = Suc j" by auto
    with Cons.IH show ?thesis by simp
  qed
qed

lemma indexOf_decompose:
  assumes "indexOf s sep = Some i"
  shows "s = take i s @ sep @ drop (i + length sep) s"
proof -
  from assms have "prefix sep (drop i s)" by (rule indexOf_prefix)
  then obtain r where r: "drop i s = sep @ r" by (auto simp: prefix_def)
  then have "drop (length sep) (drop i s) = r" by simp
  then have "drop (i + length sep) s = r" by (simp add: add.commute)
  with r have "take i s @ sep @ drop (i + length sep) s = take i s @ drop i s" by simp
  then show ?thesis by simp
qed

lemma prefix_shorter:
  "prefix sep (xs @ ys) \<Longrightarrow> length sep \<le> length xs \<Longrightarrow> prefix sep xs"
  by (metis prefix_append prefix_order.refl
      append_eq_append_conv_if append_take_drop_id prefix_def)

lemma indexOf_at:
  assumes "\<not> sublist sep (a @ butlast sep)"
  shows "indexOf (a @ sep @ b) sep = Some (length a)"
  using assms
proof (induction a)
  case Nil
  have "prefix sep (sep @ b)" by simp
  then show ?case by (cases "sep @ b") (auto simp del: same_prefix_nil)
next
  case (Cons c a)
  from Cons.prems have sepne: "sep \<noteq> []" by auto
  have "\<not> prefix sep (c # a @ sep @ b)"
  proof
    assume "prefix sep (c # a @ sep @ b)"
    moreover have "c # a @ sep @ b = (c # a @ butlast sep) @ ([last sep] @ b)"
      using sepne by simp
    moreover have "length sep \<le> length (c # a @ butlast sep)" by simp
    ultimately have "prefix sep (c # a @ butlast sep)"
      using prefix_shorter by metis
    then have "sublist sep (c # a @ butlast sep)" by (rule prefix_imp_sublist)
    with Cons.prems show False by simp
  qed
  moreover from Cons.prems have "\<not> sublist sep (a @ butlast sep)"
    by (auto simp: sublist_Cons_right)
  ultimately show ?case using Cons.IH by simp
qed

lemma js_split_none: "sep \<noteq> [] \<Longrightarrow> \<not> sublist sep s \<Longrightarrow> js_split s sep = [s]"
  using indexOf_None_iff[of s sep] by (subst js_split.simps) simp

lemma js_split_at:
  assumes "sep \<noteq> []" and "\<not> sublist sep (a @ butlast sep)"
  shows "js_split (a @ sep @ b) sep = a # js_split b sep"
proof -
  from assms(2) have "indexOf (a @ sep @ b) sep = Some (length a)" by (rule indexOf_at)
  with assms(1) show ?thesis by (subst js_split.simps) simp
qed

lemma js_split_not_Nil: "sep \<noteq> [] \<Longrightarrow> js_split s sep \<noteq> []"
  by (subst js_split.simps) (simp split: option.splits)

lemma join_Cons: "xs \<noteq> [] \<Longrightarrow> join (x # xs) sep = x @ sep @ join xs sep"
  by (cases xs) auto

lemma join_js_split: "sep \<noteq> [] \<Longrightarrow> join (js_split s sep) sep = s"
proof (induction s sep rule: js_split.induct)
  case (1 s sep)
  show ?case
  proof (cases "indexOf s sep")
    case None
    with 1 show ?thesis by (subst js_split.simps) simp
  next
    case (Some i)
    with 1 have "join (js_split (drop (i + length sep) s) sep) sep = drop (i + length sep) s"
      by simp
    moreover have "js_split s sep = take i s # js_split (drop (i + length sep) s) sep"
      using Some 1(2) by (subst js_split.simps) simp
    moreover have "js_split (drop (i + length sep) s) sep \<noteq> []"
      using 1(2) by (rule js_split_not_Nil)
    ultimately have "join (js_split s sep) sep = take i s @ sep @ drop (i + length sep) s"
      by (simp add: join_Cons)
    with indexOf_decompose[OF Some] show ?thesis by simp
  qed
qed

lemma indexOf_append:
  "indexOf s sep = Some i \<Longrightarrow> indexOf (s @ t) sep = Some i"
proof (induction s arbitrary: i)
  case Nil
  then show ?case by (cases t) (auto split: if_splits)
next
  case (Cons c cs)
  show ?case
  proof (cases "prefix sep (c # cs)")
    case True
    with Cons.prems have "i = 0" by simp
    moreover from True have "prefix sep (c # cs @ t)"
      by (metis append_Cons prefix_prefix)
    ultimately show ?thesis by simp
  next
    case False
    with Cons.prems obtain j where j: "indexOf cs sep = Some j" "i = Suc j" by auto
    then have "j + length sep \<le> length cs" using indexOf_bound by blast
    then have "length sep \<le> length (c # cs)" by simp
    with False have "\<not> prefix sep (c # cs @ t)"
      using prefix_shorter[of sep "c # cs" t] by auto
    with j Cons.IH show ?thesis by simp
  qed
qed

lemma js_split_char_append:
  "js_split (a @ [c] @ b) [c] = js_split a [c] @ js_split b [c]"
proof (induction a "[c]" rule: js_split.induct)
  case (1 a)
  show ?case
  proof (cases "indexOf a [c]")
    case None
    then have n: "\<not> sublist [c] a" by (simp add: indexOf_None_iff)
    then have "js_split a [c] = [a]" by (simp add: js_split_none)
    moreover from n have "js_split (a @ [c] @ b) [c] = a # js_split b [c]"
      by (intro js_split_at) auto
    ultimately show ?thesis by simp
  next
    case (Some i)
    then have dec: "a = take i a @ [c] @ drop (i + 1) a" using indexOf_decompose by fastforce
    from Some have bound: "i + 1 \<le> length a" using indexOf_bound by fastforce
    from Some have "indexOf (a @ [c] @ b) [c] = Some i" by (rule indexOf_append)
    then have "js_split (a @ [c] @ b) [c] = take i (a @ [c] @ b) # js_split (drop (i + 1) (a @ [c] @ b)) [c]"
      by (subst js_split.simps) simp
    also have "\<dots> = take i a # js_split (drop (i + 1) a @ [c] @ b) [c]"
      using bound by simp
    also have "\<dots> = take i a # (js_split (drop (i + 1) a) [c] @ js_split b [c])"
      using 1 Some by simp
    also have "\<dots> = js_split a [c] @ js_split b [c]"
      using Some by (subst (3) js_split.simps) simp
    finally show ?thesis .
  qed
qed

section \<open>Properties of the SEO path parser\<close>

lemma js_split_two:
  assumes "sep \<noteq> []" and "sublist sep s"
  shows "\<exists>a b rest. js_split s sep = a # b # rest"
proof -
  from assms(2) obtain i where i: "indexOf s sep = Some i"
    using indexOf_None_iff[of s sep] by auto
  then have "js_split s sep = take i s # js_split (drop (i + length sep) s) sep"
    using assms(1) by (subst js_split.simps) simp
  moreover obtain b rest where "js_split (drop (i + length sep) s) sep = b # rest"
    using js_split_not_Nil[OF assms(1)] by (meson list.exhaust)
  ultimately show ?thesis by simp
qed

lemma parseSeoSlug_total: "\<exists>t. parseSeoSlug segments = Inr t"
proof (cases "str_includes (join segments ''-'') ''-in-''")
  case True
  then obtain a b rest where "js_split (join segments ''-'') ''-in-'' = a # b # rest"
    using js_split_two[of "''-in-''" "join segments ''-''"] by (auto simp: str_includes_def)
  with True show ?thesis by (simp add: parseSeoSlug_def Let_def)
next
  case False
  then show ?thesis by (simp add: parseSeoSlug_def Let_def)
qed

lemma parseSeoSlug_service_non_null:
  "\<exists>t s. parseSeoSlug segments = Inr t \<and> serviceSlug t = Some s"
proof (cases "str_includes (join segments ''-'') ''-in-''")
  case True
  then obtain a b rest where "js_split (join segments ''-'') ''-in-'' = a # b # rest"
    using js_split_two[of "''-in-''" "join segments ''-''"] by (auto simp: str_includes_def)
  with True show ?thesis by (simp add: parseSeoSlug_def Let_def)
next
  case False
  then show ?thesis by (simp add: parseSeoSlug_def Let_def)
qed

lemma parseSeoSlug_at_marker:
  assumes slug: "join segments ''-'' = servicePart @ ''-in-'' @ locationPart @ tail"
    and first: "\<not> str_includes (servicePart @ ''-in'') ''-in-''"
    and next_marker: "(tail = [] \<and> \<not> str_includes locationPart ''-in-'') \<or>
       (startsWith tail ''-in-'' \<and> \<not> str_includes (locationPart @ ''-in'') ''-in-'')"
  shows "parseSeoSlug segments =
    (let parts = js_split locationPart ''-'' in
      if length parts \<ge> 3 then
        Inr \<lparr>serviceSlug = Some servicePart,
             citySlug = or_null (join (take (length parts - 2) parts) ''-''),
             stateSlug = Some (join (drop (length parts - 2) parts) ''-'')\<rparr>
      else if length parts = 2 then
        Inr \<lparr>serviceSlug = Some servicePart,
             citySlug = Some (parts ! 0), stateSlug = Some (parts ! 1)\<rparr>
      else if length parts = 1 then
        Inr \<lparr>serviceSlug = Some servicePart, citySlug = Some (parts ! 0), stateSlug = None\<rparr>
      else Inr \<lparr>serviceSlug = Some servicePart, citySlug = None, stateSlug = None\<rparr>)"
proof -
  let ?sep = "''-in-''"
  have bl: "butlast ?sep = ''-in''" by simp
  have inc: "str_includes (join segments ''-'') ?sep"
    unfolding slug str_includes_def by (rule sublist_appendI)
  have "js_split (servicePart @ ?sep @ (locationPart @ tail)) ?sep
      = servicePart # js_split (locationPart @ tail) ?sep"
    using first by (intro js_split_at) (simp_all add: str_includes_def)
  moreover have "\<exists>rest. js_split (locationPart @ tail) ?sep = locationPart # rest"
  proof -
    from next_marker consider
      (a) "tail = []" "\<not> str_includes locationPart ?sep"
      | (b) "startsWith tail ?sep" "\<not> str_includes (locationPart @ ''-in'') ?sep"
      by blast
    then show ?thesis
    proof cases
      case a
      then show ?thesis by (simp add: js_split_none str_includes_def)
    next
      case b
      then obtain r where "tail = ?sep @ r" by (auto simp: startsWith_def prefix_def)
      moreover have "js_split (locationPart @ ?sep @ r) ?sep = locationPart # js_split r ?sep"
        using b(2) by (intro js_split_at) (simp_all add: str_includes_def)
      ultimately show ?thesis by simp
    qed
  qed
  ultimately obtain rest where
    "js_split (join segments ''-'') ?sep = servicePart # locationPart # rest"
    using slug by auto
  with inc show ?thesis by (simp add: parseSeoSlug_def Let_def)
qed




text \<open>
  C4. The service slug is never null (\<open>parseSeoSlug_service_non_null\<close>), so one field
  is always set; but a field can be the empty string: for the segment list
  \<^verbatim>\<open>["x-in-"]\<close> the location part is empty, its only token is the empty string, and
  the city slug is \<^verbatim>\<open>''\<close> rather than null.
\<close>

theorem parseSeoSlug_empty_city:
  "parseSeoSlug [''x-in-''] =
     Inr \<lparr>serviceSlug = Some ''x'', citySlug = Some [], stateSlug = None\<rparr>"
  by code_simp

section \<open>Properties of the SEO path builder and the round trip\<close>

lemma toSlug_Nil: "toSlug [] = []"
  by (simp add: toSlug_def trim_def toLowerCase_def strip_hyphens_def)

lemma truthy_slug_of_name: "truthy (slug_of_name n) = effectively_present n"
  by (cases n) (auto simp: slug_of_name_def truthy_def effectively_present_def toSlug_Nil)

lemma interpolate_slug_of_name:
  "toSlug v \<noteq> [] \<Longrightarrow> interpolate (slug_of_name (Some v)) = toSlug v"
  by (auto simp: slug_of_name_def truthy_def interpolate_def toSlug_Nil)

lemma build_full:
  assumes "serviceName x = Some sn" "cityName x = Some cn" "stateName x = Some stn"
    and "toSlug sn \<noteq> []" "toSlug cn \<noteq> []" "toSlug stn \<noteq> []"
  shows "buildDirectorySeoPath x =
    Some (''/directory/'' @ toSlug sn @ ''-in-'' @ toSlug cn @ ''-'' @ toSlug stn)"
  using assms
  by (simp add: buildDirectorySeoPath_def Let_def truthy_slug_of_name
      interpolate_slug_of_name effectively_present_def)

lemma build_service_only:
  assumes "serviceName x = Some sn" "toSlug sn \<noteq> []"
    and "\<not> (effectively_present (cityName x) \<and> effectively_present (stateName x))"
  shows "buildDirectorySeoPath x = Some (''/directory/'' @ toSlug sn)"
  using assms
  by (auto simp: buildDirectorySeoPath_def Let_def truthy_slug_of_name
      interpolate_slug_of_name effectively_present_def)

lemma build_none: "(buildDirectorySeoPath x = None) = (\<not> effectively_present (serviceName x))"
  by (simp add: buildDirectorySeoPath_def Let_def truthy_slug_of_name)

text \<open>
  C7. \<^verbatim>\<open>buildDirectorySeoPath\<close> returns null exactly when no service name is
  effectively present, whatever city and state are; with a service name and without
  both a city and a state effectively present, the path is
  \<^verbatim>\<open>/directory/{toSlug(serviceName)}\<close>; with all three it is the combined path.
  A name is effectively present when it is given and has a letter or a digit
  (\<open>effectively_present_iff\<close>).
\<close>

theorem buildDirectorySeoPath_cases:
  "(buildDirectorySeoPath x = None \<longleftrightarrow> \<not> effectively_present (serviceName x)) \<and>
   (\<forall>sn. serviceName x = Some sn \<and> toSlug sn \<noteq> [] \<and>
      \<not> (effectively_present (cityName x) \<and> effectively_present (stateName x)) \<longrightarrow>
      buildDirectorySeoPath x = Some (''/directory/'' @ toSlug sn)) \<and>
   (\<forall>sn cn stn. serviceName x = Some sn \<and> cityName x = Some cn \<and> stateName x = Some stn \<and>
      toSlug sn \<noteq> [] \<and> toSlug cn \<noteq> [] \<and> toSlug stn \<noteq> [] \<longrightarrow>
      buildDirectorySeoPath x =
        Some (''/directory/'' @ toSlug sn @ ''-in-'' @ toSlug cn @ ''-'' @ toSlug stn))"
  using build_none build_service_only build_full by blast

text \<open>The three cases of the builder at concrete names.\<close>

theorem buildDirectorySeoPath_cases_witness:
  "buildDirectorySeoPath \<lparr>serviceName = None, cityName = Some ''Delhi'', stateName = None\<rparr> = None \<and>
   buildDirectorySeoPath
     \<lparr>serviceName = Some ''Land Surveyors'', cityName = Some ''Delhi'', stateName = None\<rparr>
     = Some ''/directory/land-surveyors'' \<and>
   buildDirectorySeoPath
     \<lparr>serviceName = Some ''Land Surveyors'', cityName = Some ''Patna'', stateName = Some ''Bihar''\<rparr>
     = Some ''/directory/land-surveyors-in-patna-bihar''"
proof -
  have s: "toSlug ''Land Surveyors'' = ''land-surveyors''" by code_simp
  have c: "toSlug ''Patna'' = ''patna''" by code_simp
  have t: "toSlug ''Bihar'' = ''bihar''" by code_simp
  have n: "\<not> effectively_present None" by (simp add: effectively_present_def)
  from buildDirectorySeoPath_cases
    [of "\<lparr>serviceName = None, cityName = Some ''Delhi'', stateName = None\<rparr>"] n
  have 1: "buildDirectorySeoPath
      \<lparr>serviceName = None, cityName = Some ''Delhi'', stateName = None\<rparr> = None"
    by simp
  from buildDirectorySeoPath_cases
    [of "\<lparr>serviceName = Some ''Land Surveyors'', cityName = Some ''Delhi'', stateName = None\<rparr>"]
    n s
  have 2: "buildDirectorySeoPath
      \<lparr>serviceName = Some ''Land Surveyors'', cityName = Some ''Delhi'', stateName = None\<rparr>
      = Some ''/directory/land-surveyors''"
    by simp
  from buildDirectorySeoPath_cases
    [of "\<lparr>serviceName = Some ''Land Surveyors'', cityName = Some ''Patna'',
          stateName = Some ''Bihar''\<rparr>"] s c t
  have 3: "buildDirectorySeoPath
      \<lparr>serviceName = Some ''Land Surveyors'', cityName = Some ''Patna'', stateName = Some ''Bihar''\<rparr>
      = Some ''/directory/land-surveyors-in-patna-bihar''"
    by simp
  from 1 2 3 show ?thesis by blast
qed

lemma slug_char_not_slash: "slug_char c \<Longrightarrow> c \<noteq> CHR ''/''"
  by (auto simp: slug_char_def is_lower_alnum_def is_hyphen_def)

lemma toSlug_no_slash: "CHR ''/'' \<notin> set (toSlug v)"
  using toSlug_is_slug[of v] slug_char_not_slash
  by (auto simp: is_slug_def list_all_iff)

lemma no_slash_no_directory:
  assumes "CHR ''/'' \<notin> set s"
  shows "\<not> sublist ''/directory/'' s"
proof
  assume "sublist ''/directory/'' s"
  then have "set ''/directory/'' \<subseteq> set s" by (rule set_mono_sublist)
  with assms show False by simp
qed

lemma round_trip_path:
  assumes "CHR ''/'' \<notin> set s"
  shows "(case js_split (''/directory/'' @ s) ''/directory/'' of
            _ # rest # _ \<Rightarrow> parseSeoSlug (js_split rest ''-'')
          | _ \<Rightarrow> Inl TypeError) = parseSeoSlug (js_split s ''-'')"
proof -
  have "\<not> sublist ''/directory/'' ([] @ butlast ''/directory/'')"
  proof
    assume "sublist ''/directory/'' ([] @ butlast ''/directory/'')"
    then have "length ''/directory/'' \<le> length ([] @ butlast ''/directory/'')"
      by (rule sublist_length_le)
    then show False by simp
  qed
  then have "js_split ([] @ ''/directory/'' @ s) ''/directory/'' = [] # js_split s ''/directory/''"
    by (intro js_split_at) simp_all
  moreover have "js_split s ''/directory/'' = [s]"
    using no_slash_no_directory[OF assms] by (simp add: js_split_none)
  ultimately show ?thesis by simp
qed

lemma round_trip_service_only:
  assumes "serviceName x = Some sn" "cityName x = None" "stateName x = None"
    and "toSlug sn \<noteq> []" "\<not> str_includes (toSlug sn) ''-in-''"
  shows "seo_round_trip x =
    Inr \<lparr>serviceSlug = Some (toSlug sn), citySlug = None, stateSlug = None\<rparr>"
proof -
  have "buildDirectorySeoPath x = Some (''/directory/'' @ toSlug sn)"
    using assms by (intro build_service_only) (simp_all add: effectively_present_def)
  then have "seo_round_trip x = parseSeoSlug (js_split (toSlug sn) ''-'')"
    using round_trip_path[OF toSlug_no_slash[of sn]] by (simp add: seo_round_trip_def)
  moreover have "join (js_split (toSlug sn) ''-'') ''-'' = toSlug sn"
    by (simp add: join_js_split)
  ultimately show ?thesis using assms(5) by (simp add: parseSeoSlug_def Let_def)
qed

lemma round_trip_full:
  assumes "serviceName x = Some sn" "cityName x = Some cn" "stateName x = Some stn"
    and "toSlug sn \<noteq> []" "toSlug cn \<noteq> []"
    and two: "length (js_split (toSlug stn) ''-'') = 2"
    and first: "\<not> str_includes (toSlug sn @ ''-in'') ''-in-''"
    and loc: "\<not> str_includes (toSlug cn @ ''-'' @ toSlug stn) ''-in-''"
  shows "seo_round_trip x =
    Inr \<lparr>serviceSlug = Some (toSlug sn), citySlug = Some (toSlug cn),
         stateSlug = Some (toSlug stn)\<rparr>"
proof -
  let ?s = "toSlug sn" and ?c = "toSlug cn" and ?t = "toSlug stn"
  let ?loc = "?c @ ''-'' @ ?t"
  let ?slug = "?s @ ''-in-'' @ ?loc"
  have tne: "?t \<noteq> []"
  proof
    assume "?t = []"
    then have "js_split ?t ''-'' = [Nil]" by (simp add: js_split_none)
    with two show False by simp
  qed
  have "buildDirectorySeoPath x = Some (''/directory/'' @ ?slug)"
    using assms(1-5) tne by (simp add: build_full)
  moreover have "CHR ''/'' \<notin> set ?slug" using toSlug_no_slash by simp
  ultimately have "seo_round_trip x = parseSeoSlug (js_split ?slug ''-'')"
    using round_trip_path[of ?slug] by (simp add: seo_round_trip_def)
  moreover have "join (js_split ?slug ''-'') ''-'' = ?s @ ''-in-'' @ ?loc @ []"
    by (simp add: join_js_split)
  ultimately have *: "seo_round_trip x =
    (let parts = js_split ?loc ''-'' in
      if length parts \<ge> 3 then
        Inr \<lparr>serviceSlug = Some ?s,
             citySlug = or_null (join (take (length parts - 2) parts) ''-''),
             stateSlug = Some (join (drop (length parts - 2) parts) ''-'')\<rparr>
      else if length parts = 2 then
        Inr \<lparr>serviceSlug = Some ?s,
             citySlug = Some (parts ! 0), stateSlug = Some (parts ! 1)\<rparr>
      else if length parts = 1 then
        Inr \<lparr>serviceSlug = Some ?s, citySlug = Some (parts ! 0), stateSlug = None\<rparr>
      else Inr \<lparr>serviceSlug = Some ?s, citySlug = None, stateSlug = None\<rparr>)"
    using parseSeoSlug_at_marker[of "js_split ?slug ''-''" ?s ?loc "[]"] first loc by simp
  have parts: "js_split ?loc ''-'' = js_split ?c ''-'' @ js_split ?t ''-''"
    by (rule js_split_char_append)
  have cne: "js_split ?c ''-'' \<noteq> []" by (simp add: js_split_not_Nil)
  then have len: "length (js_split ?loc ''-'') \<ge> 3"
    using two parts by (cases "js_split ?c ''-''") auto
  have "take (length (js_split ?loc ''-'') - 2) (js_split ?loc ''-'') = js_split ?c ''-''"
    unfolding parts using two by simp
  then have "join (take (length (js_split ?loc ''-'') - 2) (js_split ?loc ''-'')) ''-'' = ?c"
    by (simp add: join_js_split)
  moreover have "drop (length (js_split ?loc ''-'') - 2) (js_split ?loc ''-'') = js_split ?t ''-''"
    unfolding parts using two by simp
  then have "join (drop (length (js_split ?loc ''-'') - 2) (js_split ?loc ''-'')) ''-'' = ?t"
    by (simp add: join_js_split)
  ultimately show ?thesis using * len assms(5) by (simp add: Let_def or_null_def)
qed

text \<open>
  C3 (as amended). Parsing the path that \<^verbatim>\<open>buildDirectorySeoPath\<close> builds gives back
  the slugs of the names, for a service alone when its slug is not empty and does not
  contain \<^verbatim>\<open>-in-\<close>, and for service, city and state when the service and city slugs are
  not empty, the state slug has exactly two hyphen-separated tokens, \<^verbatim>\<open>-in-\<close> does not
  occur in the service slug followed by \<^verbatim>\<open>-in\<close>, and does not occur in the city
  slug, a hyphen and the state slug.
\<close>

theorem seo_round_trip_law:
  "(\<forall>sn. serviceName x = Some sn \<and> cityName x = None \<and> stateName x = None \<and>
      toSlug sn \<noteq> [] \<and> \<not> str_includes (toSlug sn) ''-in-'' \<longrightarrow>
      seo_round_trip x =
        Inr \<lparr>serviceSlug = Some (toSlug sn), citySlug = None, stateSlug = None\<rparr>) \<and>
   (\<forall>sn cn stn. serviceName x = Some sn \<and> cityName x = Some cn \<and> stateName x = Some stn \<and>
      toSlug sn \<noteq> [] \<and> toSlug cn \<noteq> [] \<and> length (js_split (toSlug stn) ''-'') = 2 \<and>
      \<not> str_includes (toSlug sn @ ''-in'') ''-in-'' \<and>
      \<not> str_includes (toSlug cn @ ''-'' @ toSlug stn) ''-in-'' \<longrightarrow>
      seo_round_trip x =
        Inr \<lparr>serviceSlug = Some (toSlug sn), citySlug = Some (toSlug cn),
             stateSlug = Some (toSlug stn)\<rparr>)"
  using round_trip_service_only round_trip_full by blast

text \<open>
  C3 as stated fails for the service name \<^verbatim>\<open>Plug in Hybrid\<close> without location: its slug
  \<^verbatim>\<open>plug-in-hybrid\<close> is parsed as service \<^verbatim>\<open>plug\<close> in city \<^verbatim>\<open>hybrid\<close>.
\<close>

theorem seo_round_trip_counterexample:
  "seo_round_trip \<lparr>serviceName = Some ''Plug in Hybrid'', cityName = None, stateName = None\<rparr>
     = Inr \<lparr>serviceSlug = Some ''plug'', citySlug = Some ''hybrid'', stateSlug = None\<rparr> \<and>
   seo_round_trip \<lparr>serviceName = Some ''Plug in Hybrid'', cityName = None, stateName = None\<rparr>
     \<noteq> Inr \<lparr>serviceSlug = Some (toSlug ''Plug in Hybrid''), citySlug = None, stateSlug = None\<rparr>"
  by code_simp

text \<open>The round trip at the two examples of the documentation.\<close>

theorem seo_round_trip_law_witness:
  "seo_round_trip \<lparr>serviceName = Some ''Land Surveyors'', cityName = None, stateName = None\<rparr>
     = Inr \<lparr>serviceSlug = Some ''land-surveyors'', citySlug = None, stateSlug = None\<rparr> \<and>
   seo_round_trip \<lparr>serviceName = Some ''PEB Building Design Consultant'',
       cityName = Some ''Visakhapatnam'', stateName = Some ''Andhra Pradesh''\<rparr>
     = Inr \<lparr>serviceSlug = Some ''peb-building-design-consultant'',
            citySlug = Some ''visakhapatnam'', stateSlug = Some ''andhra-pradesh''\<rparr>"
proof -
  have s1: "toSlug ''Land Surveyors'' = ''land-surveyors''" by code_simp
  have i1: "\<not> str_includes ''land-surveyors'' ''-in-''" by code_simp
  have s2: "toSlug ''PEB Building Design Consultant'' = ''peb-building-design-consultant''"
    by code_simp
  have c2: "toSlug ''Visakhapatnam'' = ''visakhapatnam''" by code_simp
  have t2: "toSlug ''Andhra Pradesh'' = ''andhra-pradesh''" by code_simp
  have l2: "length (js_split ''andhra-pradesh'' ''-'') = 2" by code_simp
  have i2: "\<not> str_includes (''peb-building-design-consultant'' @ ''-in'') ''-in-''" by code_simp
  have j2: "\<not> str_includes (''visakhapatnam'' @ ''-'' @ ''andhra-pradesh'') ''-in-''" by code_simp
  from seo_round_trip_law
    [of "\<lparr>serviceName = Some ''Land Surveyors'', cityName = None, stateName = None\<rparr>"] s1 i1
  have 1: "seo_round_trip \<lparr>serviceName = Some ''Land Surveyors'', cityName = None, stateName = None\<rparr>
     = Inr \<lparr>serviceSlug = Some ''land-surveyors'', citySlug = None, stateSlug = None\<rparr>"
    by simp
  from seo_round_trip_law
    [of "\<lparr>serviceName = Some ''PEB Building Design Consultant'',
       cityName = Some ''Visakhapatnam'', stateName = Some ''Andhra Pradesh''\<rparr>"]
    s2 c2 t2 l2 i2 j2
  have 2: "seo_round_trip \<lparr>serviceName = Some ''PEB Building Design Consultant'',
       cityName = Some ''Visakhapatnam'', stateName = Some ''Andhra Pradesh''\<rparr>
     = Inr \<lparr>serviceSlug = Some ''peb-building-design-consultant'',
            citySlug = Some ''visakhapatnam'', stateSlug = Some ''andhra-pradesh''\<rparr>"
    by simp
  from 1 2 show ?thesis by blast
qed

section \<open>Properties of the middleware\<close>

lemma dashboard_path_tests:
  assumes "startsWith p ''/dashboard''"
  shows "\<not> startsWith p ''/auth/vendor/''" "\<not> startsWith p ''/auth/user/''"
    "p \<noteq> ''/directory''" "\<not> startsWith p ''/directory/''" "\<not> startsWith p ''/auth/''"
    "p \<noteq> ''/''"
proof -
  from assms obtain r where p: "p = ''/dashboard'' @ r"
    by (auto simp: startsWith_def prefix_def)
  show "\<not> startsWith p ''/auth/vendor/''" "\<not> startsWith p ''/auth/user/''"
    "p \<noteq> ''/directory''" "\<not> startsWith p ''/directory/''" "\<not> startsWith p ''/auth/''"
    "p \<noteq> ''/''"
    unfolding p by (simp_all add: startsWith_def)
qed

text \<open>
  C5. A request whose path starts with \<^verbatim>\<open>/dashboard\<close> is never answered by the
  generic subdomain-to-path rewrite, whatever the host: either an earlier stage answers
  (static asset, the rewrite of the \<^verbatim>\<open>dir\<close> subdomain, the redirect of the main
  domain) or the request passes through; on every subdomain other than \<^verbatim>\<open>dir\<close>,
  \<^verbatim>\<open>www\<close> and the empty one it passes through unmodified.
\<close>

theorem dashboard_never_generic_rewrite:
  assumes "startsWith (pathname (nextUrl req)) ''/dashboard''"
  shows "fst (middleware_trace req) \<noteq> GenericRewrite \<and>
    (middleware_trace req = (StaticAsset, Next)
     \<or> fst (middleware_trace req) = DirRewrite
     \<or> fst (middleware_trace req) = MainRedirect
     \<or> middleware_trace req = (Default, Next)) \<and>
    (subdomain_of req \<noteq> ''dir'' \<and> subdomain_of req \<noteq> [] \<and> subdomain_of req \<noteq> ''www''
       \<longrightarrow> middleware req = Next)"
  using assms dashboard_path_tests[OF assms]
  by (simp add: middleware_trace_def middleware_def subdomain_of_def Let_def
      split: option.splits)

text \<open>The request \<^verbatim>\<open>vendor.example.com/dashboard/x\<close> passes through.\<close>

theorem dashboard_never_generic_rewrite_witness:
  "startsWith ''/dashboard/x'' ''/dashboard'' \<and>
   middleware \<lparr>host_header = Some ''vendor.example.com'',
     nextUrl = \<lparr>hostname = ''vendor.example.com'', port = [], pathname = ''/dashboard/x''\<rparr>\<rparr>
   = Next"
proof -
  let ?req = "\<lparr>host_header = Some ''vendor.example.com'',
     nextUrl = \<lparr>hostname = ''vendor.example.com'', port = [], pathname = ''/dashboard/x''\<rparr>\<rparr>"
  have h: "startsWith (pathname (nextUrl ?req)) ''/dashboard''" by code_simp
  have s: "subdomain_of ?req = ''vendor''" by code_simp
  from dashboard_never_generic_rewrite[OF h] s have "middleware ?req = Next" by simp
  moreover have "startsWith ''/dashboard/x'' ''/dashboard''" by code_simp
  ultimately show ?thesis by simp
qed

text \<open>
  C1. The redirect of the main domain tests the first label of the host name against
  the empty string and \<^verbatim>\<open>www\<close>. For a bare domain that label is the domain's own
  first label, so \<^verbatim>\<open>indiantrademart.com/land-surveyors\<close> (and
  \<^verbatim>\<open>example.com/land-surveyors\<close>) is not redirected: it passes through. The
  redirect itself is as the claim says once the stage is reached
  (\<open>main_domain_redirect\<close> below).
\<close>

theorem bare_main_domain_not_redirected:
  "subdomain_of \<lparr>host_header = Some ''indiantrademart.com'',
     nextUrl = \<lparr>hostname = ''indiantrademart.com'', port = [], pathname = ''/land-surveyors''\<rparr>\<rparr>
     = ''indiantrademart'' \<and>
   middleware_trace \<lparr>host_header = Some ''indiantrademart.com'',
     nextUrl = \<lparr>hostname = ''indiantrademart.com'', port = [], pathname = ''/land-surveyors''\<rparr>\<rparr>
     = (Default, Next) \<and>
   middleware_trace \<lparr>host_header = Some ''example.com'',
     nextUrl = \<lparr>hostname = ''example.com'', port = [], pathname = ''/land-surveyors''\<rparr>\<rparr>
     = (Default, Next)"
  by code_simp

lemma not_reserved_main:
  assumes "\<forall>pre\<in>set reservedMainPrefixes. \<not> startsWith p pre"
  shows "\<not> is_reserved reservedMainPrefixes p"
proof -
  have "\<not> (p = pre \<or> startsWith p (pre @ ''/''))" if "pre \<in> set reservedMainPrefixes" for pre
  proof -
    from that assms have "\<not> prefix pre p" by (simp add: startsWith_def)
    then show ?thesis by (auto simp: startsWith_def dest: append_prefixD)
  qed
  then show ?thesis by (simp add: is_reserved_def list_ex_iff)
qed

lemma main_domain_redirect:
  assumes sub: "subdomain_of req = [] \<or> subdomain_of req = ''www''"
    and root: "pathname (nextUrl req) \<noteq> ''/''"
    and ext: "\<not> has_file_extension (pathname (nextUrl req))"
    and res: "\<forall>pre\<in>set reservedMainPrefixes. \<not> startsWith (pathname (nextUrl req)) pre"
  shows "\<exists>u. middleware_trace req = (MainRedirect, Redirect u 308) \<and>
     pathname u = pathname (nextUrl req) \<and>
     (hostname u = ''dir.localhost'' \<or> hostname u = ''dir.'' @ MAIN_DOMAIN)"
proof -
  let ?p = "pathname (nextUrl req)"
  from res have a: "\<not> startsWith ?p ''/auth''" and d: "\<not> startsWith ?p ''/directory''"
    by (simp_all add: reservedMainPrefixes_def)
  from a have 1: "\<not> startsWith ?p ''/auth/vendor/''" "\<not> startsWith ?p ''/auth/user/''"
    "\<not> startsWith ?p ''/auth/''"
    by (auto simp: startsWith_def prefix_def)
  from d have 2: "?p \<noteq> ''/directory''" "\<not> startsWith ?p ''/directory/''"
    by (auto simp: startsWith_def prefix_def)
  from sub have 3: "subdomain_of req \<noteq> ''dir''" by auto
  note 4 = not_reserved_main[OF res]
  show ?thesis
    using sub root ext 1 2 3 4
    by (auto simp: middleware_trace_def subdomain_of_def Let_def)
qed

section \<open>Properties of the category resolver\<close>

text \<open>
  C6 as stated fails: when the service name is a subcategory of an earlier entry and
  the name of a later entry, the earlier subcategory wins.
\<close>

theorem resolve_subcategory_first_counterexample:
  "resolveCategoryPathForService (Some ''B'')
     [\<lparr>name = ''A'', subCategories = [\<lparr>sub_name = ''B''\<rparr>]\<rparr>,
      \<lparr>name = ''B'', subCategories = []\<rparr>]
   = \<lparr>headCategory = Some ''A'', microCategory = Some ''B'', pathServiceName = Some ''B''\<rparr> \<and>
   resolveCategoryPathForService (Some ''B'')
     [\<lparr>name = ''A'', subCategories = [\<lparr>sub_name = ''B''\<rparr>]\<rparr>,
      \<lparr>name = ''B'', subCategories = []\<rparr>]
   \<noteq> \<lparr>headCategory = Some ''B'', microCategory = None, pathServiceName = Some ''B''\<rparr>"
  by code_simp

lemma find_sub_None:
  "find (\<lambda>sub. normalized (sub_name sub) = normalized sn) (subCategories c) = None
    \<longleftrightarrow> \<not> sub_matches sn c"
  by (auto simp: sub_matches_def find_None_iff list_ex_iff)

lemma search_categories_find:
  "search_categories sn categories =
     (case find (\<lambda>c. head_matches sn c \<or> sub_matches sn c) categories of
        None \<Rightarrow> \<lparr>headCategory = None, microCategory = None, pathServiceName = Some sn\<rparr>
      | Some c \<Rightarrow>
          if head_matches sn c then
            \<lparr>headCategory = Some (name c), microCategory = None, pathServiceName = Some sn\<rparr>
          else
            \<lparr>headCategory = Some (name c),
             microCategory = map_option sub_name
               (find (\<lambda>sub. normalized (sub_name sub) = normalized sn) (subCategories c)),
             pathServiceName = Some sn\<rparr>)"
proof (induction categories)
  case Nil
  then show ?case by simp
next
  case (Cons c cs)
  show ?case
  proof (cases "head_matches sn c")
    case True
    then show ?thesis by (simp add: head_matches_def)
  next
    case False
    show ?thesis
    proof (cases "find (\<lambda>sub. normalized (sub_name sub) = normalized sn) (subCategories c)")
      case None
      then have "\<not> sub_matches sn c" by (simp add: find_sub_None)
      with None False Cons.IH show ?thesis by (simp add: head_matches_def)
    next
      case (Some sub)
      then have "sub_matches sn c"
        using find_sub_None[of sn c] by simp
      with Some False show ?thesis by (simp add: head_matches_def)
    qed
  qed
qed

text \<open>
  C6 (as amended). The catalog is searched once, in order; the first entry whose own
  name or one of whose subcategory names equals the service name (trimmed, ignoring
  case) decides: by its own name when that matches, else by its first matching
  subcategory. Without such an entry head and micro category are null and the service
  name is passed through; an empty or missing service name comes back as null.
\<close>

theorem resolve_first_matching_entry:
  "(sn \<noteq> [] \<longrightarrow>
     resolveCategoryPathForService (Some sn) categories =
       (case find (\<lambda>c. head_matches sn c \<or> sub_matches sn c) categories of
          None \<Rightarrow> \<lparr>headCategory = None, microCategory = None, pathServiceName = Some sn\<rparr>
        | Some c \<Rightarrow>
            if head_matches sn c then
              \<lparr>headCategory = Some (name c), microCategory = None, pathServiceName = Some sn\<rparr>
            else
              \<lparr>headCategory = Some (name c),
               microCategory = map_option sub_name
                 (find (\<lambda>sub. normalized (sub_name sub) = normalized sn) (subCategories c)),
               pathServiceName = Some sn\<rparr>)) \<and>
   resolveCategoryPathForService (Some []) categories =
     \<lparr>headCategory = None, microCategory = None, pathServiceName = None\<rparr> \<and>
   resolveCategoryPathForService None categories =
     \<lparr>headCategory = None, microCategory = None, pathServiceName = None\<rparr>"
proof -
  have "resolveCategoryPathForService (Some sn) categories = search_categories sn categories"
    if "sn \<noteq> []"
    using that by (cases categories) (simp_all add: resolveCategoryPathForService_def or_null_def)
  then show ?thesis
    by (simp add: search_categories_find resolveCategoryPathForService_def or_null_def)
qed

text \<open>The example of the documentation: a subcategory of the only entry.\<close>

theorem resolve_first_matching_entry_witness:
  "resolveCategoryPathForService (Some ''Boundary Survey'')
     [\<lparr>name = ''Land Surveyors'', subCategories = [\<lparr>sub_name = ''Boundary Survey''\<rparr>]\<rparr>]
   = \<lparr>headCategory = Some ''Land Surveyors'', microCategory = Some ''Boundary Survey'',
      pathServiceName = Some ''Boundary Survey''\<rparr>"
proof -
  let ?c = "\<lparr>name = ''Land Surveyors'', subCategories = [\<lparr>sub_name = ''Boundary Survey''\<rparr>]\<rparr>"
  have ne: "''Boundary Survey'' \<noteq> []" by simp
  have h: "\<not> head_matches ''Boundary Survey'' ?c" by code_simp
  have m: "sub_matches ''Boundary Survey'' ?c" by code_simp
  have f: "find (\<lambda>sub. normalized (sub_name sub) = normalized ''Boundary Survey'')
     (subCategories ?c) = Some \<lparr>sub_name = ''Boundary Survey''\<rparr>" by code_simp
  from resolve_first_matching_entry[of "''Boundary Survey''" "[?c]"] ne h m f
  show ?thesis by simp
qed

section \<open>Properties of the lead popup hook\<close>

lemma run_cleanup_timers:
  assumes "timer_inv w"
  shows "timers (run_cleanup w) = []" and "next_timer (run_cleanup w) = next_timer w"
    and "mounted (run_cleanup w) = mounted w" and "current_deps (run_cleanup w) = current_deps w"
    and "isOpen (run_cleanup w) = isOpen w"
  using assms
  by (auto simp: timer_inv_def run_cleanup_def clear_timer_def current_deps_def
      split: option.splits)

lemma commit_inv:
  assumes "timer_inv w" and m: "mounted w"
  shows "timer_inv (commit w)" and "settled (commit w)"
proof -
  show "settled (commit w)"
    by (auto simp: commit_def settled_def auto_open_effect_def current_deps_def
        run_cleanup_def clear_timer_def split: option.splits)
  show "timer_inv (commit w)"
  proof (cases "current_deps w = last_deps w")
    case True
    with assms show ?thesis by (simp add: commit_def)
  next
    case False
    let ?w1 = "(run_cleanup w)\<lparr>last_deps := current_deps w\<rparr>"
    have "timers ?w1 = []" "0 < next_timer ?w1"
      using run_cleanup_timers[OF assms(1)] assms(1) by (simp_all add: timer_inv_def)
    then have "timer_inv (auto_open_effect ?w1)"
      using run_cleanup_timers(3,4)[OF assms(1)] m
      by (auto simp: timer_inv_def auto_open_effect_def current_deps_def)
    with False show ?thesis by (simp add: commit_def)
  qed
qed


lemma commit_fields:
  "mounted (commit w) = mounted w" "isOpen (commit w) = isOpen w"
  "hasSubmitted (commit w) = hasSubmitted w" "hasDismissed (commit w) = hasDismissed w"
  "options (commit w) = options w" "sessionStorage (commit w) = sessionStorage w"
  by (auto simp: commit_def auto_open_effect_def run_cleanup_def clear_timer_def
      split: option.splits)


lemma armed_not_closed:
  assumes "timer_inv w" "settled w" "timers w \<noteq> []"
  shows "\<not> hasSubmitted w" "\<not> hasDismissed w" "mounted w"
  using assms by (simp_all add: timer_inv_def settled_def current_deps_def)

lemma commit_no_timer:
  assumes "timer_inv w" "hasSubmitted w \<or> hasDismissed w"
  shows "timers (commit w) = []"
proof (cases "current_deps w = last_deps w")
  case True
  then have "settled w" by (simp add: settled_def)
  with assms armed_not_closed[of w] have "timers w = []" by blast
  with True show ?thesis by (simp add: commit_def)
next
  case False
  with assms(2) run_cleanup_timers(1)[OF assms(1)] show ?thesis
    by (auto simp: commit_def auto_open_effect_def run_cleanup_def clear_timer_def
        split: option.splits)
qed

lemma render_inv:
  assumes "timer_inv w" and "mounted w"
  shows "timer_inv (render w)" and "settled (render w)"
proof -
  let ?w = "if update_queued w then w\<lparr>hasSubmitted := True, update_queued := False\<rparr> else w"
  have "timer_inv ?w" using assms(1) by (auto simp: timer_inv_def split: option.splits)
  moreover have "mounted ?w" using assms(2) by simp
  ultimately show "timer_inv (render w)" and "settled (render w)"
    unfolding render_def by (rule commit_inv)+
qed

lemma render_fields:
  "mounted (render w) = mounted w" "isOpen (render w) = isOpen w"
  "hasDismissed (render w) = hasDismissed w"
  "hasSubmitted (render w) = (hasSubmitted w \<or> update_queued w)"
  by (simp_all add: render_def commit_fields)

lemma render_no_timer:
  assumes "timer_inv w" "hasSubmitted w \<or> hasDismissed w \<or> update_queued w"
  shows "timers (render w) = []"
proof -
  let ?w = "if update_queued w then w\<lparr>hasSubmitted := True, update_queued := False\<rparr> else w"
  have "timer_inv ?w" using assms(1) by (auto simp: timer_inv_def split: option.splits)
  moreover have "hasSubmitted ?w \<or> hasDismissed ?w" using assms(2) by auto
  ultimately show ?thesis unfolding render_def by (rule commit_no_timer)
qed

lemma mount_inv: "timer_inv (mount opts st)" "settled (mount opts st)" "mounted (mount opts st)"
  by (simp_all add: mount_def Let_def auto_open_effect_def timer_inv_def settled_def
      current_deps_def)

lemma mount_queued: "update_queued (mount opts st) = truthy (st POPUP_SUBMITTED_KEY)"
  by (simp add: mount_def Let_def auto_open_effect_def)

lemma timer_inv_filter:
  assumes "timer_inv w"
  shows "timer_inv (w\<lparr>timers := filter P (timers w), isOpen := b\<rparr>)"
proof (cases "timers w")
  case Nil
  with assms show ?thesis by (simp add: timer_inv_def)
next
  case (Cons t ts)
  with assms have "ts = []" by (auto simp: timer_inv_def split: option.splits)
  with Cons assms show ?thesis by (auto simp: timer_inv_def split: option.splits)
qed

lemma step_mounted:
  assumes "mounted w"
  shows "step e w =
    (case e of
       OpenPopup \<Rightarrow> commit (w\<lparr>isOpen := True\<rparr>)
     | ClosePopup \<Rightarrow> commit (w\<lparr>isOpen := False, hasDismissed := True\<rparr>)
     | MarkAsSubmitted \<Rightarrow>
         commit (w\<lparr>isOpen := False, hasSubmitted := True,
                   sessionStorage := (sessionStorage w)(POPUP_SUBMITTED_KEY \<mapsto> ''true'')\<rparr>)
     | TimerFires i \<Rightarrow>
         if pending i w then
           commit (w\<lparr>timers := filter (\<lambda>t. fst t \<noteq> i) (timers w), isOpen := True\<rparr>)
         else w
     | Rerender opts \<Rightarrow> render (w\<lparr>options := opts\<rparr>)
     | Unmount \<Rightarrow> (run_cleanup w)\<lparr>mounted := False\<rparr>)"
  using assms by (simp add: step_def)

lemma step_unmounted:
  assumes "\<not> mounted w"
  shows "timers (step e w) = timers w" "isOpen (step e w) = isOpen w"
    "mounted (step e w) = mounted w" "hasSubmitted (step e w) = hasSubmitted w"
    "hasDismissed (step e w) = hasDismissed w"
    "timer_inv (step e w) = timer_inv w" "settled (step e w) = settled w"
  using assms
  by (cases e; simp add: step_def timer_inv_def settled_def current_deps_def)+

lemma step_inv:
  assumes "timer_inv w" "settled w"
  shows "timer_inv (step e w)" "settled (step e w)"
proof -
  have "timer_inv (step e w) \<and> settled (step e w)"
  proof (cases "mounted w")
    case False
    with assms show ?thesis by (simp add: step_unmounted)
  next
    case True
    have *: "timer_inv (commit w') \<and> settled (commit w')" if "timer_inv w'" "mounted w'" for w'
      using commit_inv[OF that] by simp
    show ?thesis
    proof (cases e)
      case OpenPopup
      have "timer_inv (w\<lparr>isOpen := True\<rparr>)"
        using assms(1) by (auto simp: timer_inv_def split: option.splits)
      with True OpenPopup show ?thesis by (simp add: step_mounted *)
    next
      case ClosePopup
      have "timer_inv (w\<lparr>isOpen := False, hasDismissed := True\<rparr>)"
        using assms(1) by (auto simp: timer_inv_def split: option.splits)
      with True ClosePopup show ?thesis by (simp add: step_mounted *)
    next
      case MarkAsSubmitted
      have "timer_inv (w\<lparr>isOpen := False, hasSubmitted := True,
                   sessionStorage := (sessionStorage w)(POPUP_SUBMITTED_KEY \<mapsto> ''true'')\<rparr>)"
        using assms(1) by (auto simp: timer_inv_def split: option.splits)
      with True MarkAsSubmitted show ?thesis by (simp add: step_mounted *)
    next
      case (TimerFires i)
      have "timer_inv (w\<lparr>timers := filter (\<lambda>t. fst t \<noteq> i) (timers w), isOpen := True\<rparr>)"
        using assms(1) by (rule timer_inv_filter)
      with True TimerFires assms show ?thesis by (simp add: step_mounted *)
    next
      case (Rerender opts)
      have "timer_inv (w\<lparr>options := opts\<rparr>)"
        using assms(1) by (auto simp: timer_inv_def split: option.splits)
      moreover have "mounted (w\<lparr>options := opts\<rparr>)" using True by simp
      ultimately have "timer_inv (render (w\<lparr>options := opts\<rparr>))"
        "settled (render (w\<lparr>options := opts\<rparr>))"
        by (rule render_inv)+
      with True Rerender show ?thesis by (simp add: step_mounted)
    next
      case Unmount
      have "timer_inv ((run_cleanup w)\<lparr>mounted := False\<rparr>)"
        using run_cleanup_timers[OF assms(1)] assms(1) by (simp add: timer_inv_def)
      moreover have "settled ((run_cleanup w)\<lparr>mounted := False\<rparr>)"
        using assms(2)
        by (auto simp: settled_def current_deps_def run_cleanup_def clear_timer_def
            split: option.splits)
      ultimately show ?thesis using True Unmount by (simp add: step_mounted)
    qed
  qed
  then show "timer_inv (step e w)" "settled (step e w)" by simp_all
qed



lemma run_cleanup_fields:
  "hasSubmitted (run_cleanup w) = hasSubmitted w" "hasDismissed (run_cleanup w) = hasDismissed w"
  by (auto simp: run_cleanup_def clear_timer_def split: option.splits)

lemma pending_Nil: "timers w = [] \<Longrightarrow> \<not> pending i w"
  by (simp add: pending_def)

lemma closed_step:
  assumes "closed_for_good w"
  shows "closed_for_good (step e w)"
proof (cases "mounted w")
  case False
  with assms show ?thesis by (simp add: closed_for_good_def step_unmounted)
next
  case True
  from assms have inv: "timer_inv w" "settled w" and t: "timers w = []"
    and c: "hasSubmitted w \<or> hasDismissed w"
    by (simp_all add: closed_for_good_def)
  have i: "timer_inv (step e w)" "settled (step e w)" using inv by (rule step_inv)+
  have *: "timers (commit w') = []" if "timer_inv w'" "hasSubmitted w' \<or> hasDismissed w'" for w'
    using that by (rule commit_no_timer)
  have pre: "timer_inv (w\<lparr>isOpen := b\<rparr>)" "timer_inv (w\<lparr>isOpen := b, hasDismissed := True\<rparr>)"
    "timer_inv (w\<lparr>isOpen := b, hasSubmitted := True, sessionStorage := st\<rparr>)"
    "timer_inv (w\<lparr>options := opts\<rparr>)" for b st opts
    using inv(1) by (auto simp: timer_inv_def split: option.splits)
  have "(hasSubmitted (step e w) \<or> hasDismissed (step e w)) \<and> timers (step e w) = []"
  proof (cases e)
    case OpenPopup
    with True c pre show ?thesis by (simp add: step_mounted commit_fields *)
  next
    case ClosePopup
    with True c pre show ?thesis by (simp add: step_mounted commit_fields *)
  next
    case MarkAsSubmitted
    with True c pre show ?thesis by (simp add: step_mounted commit_fields *)
  next
    case (TimerFires i)
    with True c t show ?thesis by (simp add: step_mounted pending_Nil)
  next
    case (Rerender opts)
    with True c pre(4)[of opts] render_no_timer[of "w\<lparr>options := opts\<rparr>"] show ?thesis
      by (auto simp: step_mounted render_fields)
  next
    case Unmount
    with True c run_cleanup_timers(1)[OF inv(1)] show ?thesis
      by (simp add: step_mounted run_cleanup_fields)
  qed
  with i show ?thesis by (simp add: closed_for_good_def)
qed

lemma closed_run: "closed_for_good w \<Longrightarrow> closed_for_good (run w es)"
  by (induction es arbitrary: w) (simp_all add: closed_step)

lemma closed_never_auto_opened: "closed_for_good w \<Longrightarrow> \<not> auto_opened w es"
proof (induction es arbitrary: w)
  case Nil
  then show ?case by simp
next
  case (Cons e es)
  from Cons.prems have "timers w = []" by (simp add: closed_for_good_def)
  then have "\<not> pending i w" for i by (rule pending_Nil)
  moreover have "\<not> auto_opened (step e w) es" using Cons.prems closed_step Cons.IH by blast
  ultimately show ?case by (cases e) simp_all
qed



lemma submitted_session_after_rerender:
  assumes "truthy (st POPUP_SUBMITTED_KEY)"
  shows "closed_for_good (step (Rerender opts') (mount opts st))"
    and "\<not> auto_opened (step (Rerender opts') (mount opts st)) es"
proof -
  let ?w = "(mount opts st)\<lparr>options := opts'\<rparr>"
  have inv: "timer_inv ?w" "mounted ?w"
    using mount_inv(1,3)[of opts st] by (auto simp: timer_inv_def split: option.splits)
  have q: "update_queued ?w" using assms by (simp add: mount_queued)
  have "timer_inv (render ?w)" "settled (render ?w)" using inv by (rule render_inv)+
  moreover have "timers (render ?w) = []" using inv(1) q by (intro render_no_timer) simp_all
  moreover have "hasSubmitted (render ?w)" using q by (simp add: render_fields)
  ultimately show c: "closed_for_good (step (Rerender opts') (mount opts st))"
    using mount_inv(3)[of opts st] by (simp add: closed_for_good_def step_mounted)
  then show "\<not> auto_opened (step (Rerender opts') (mount opts st)) es"
    by (rule closed_never_auto_opened)
qed

lemma manual_open_opens: "mounted w \<Longrightarrow> isOpen (step OpenPopup w)"
  by (simp add: step_mounted commit_fields)

text \<open>
  C8. In a session whose storage holds the flag \<^verbatim>\<open>markAsSubmitted\<close> writes, a hook
  mounted with auto-open enabled and delay 0 arms its timeout in the first effect pass,
  where \<^verbatim>\<open>hasSubmitted\<close> is still false. The timeout fires before the render of
  the queued \<^verbatim>\<open>setHasSubmitted(true)\<close> and opens the popup, which that render leaves
  open. Once that render has happened no timeout fires any more
  (\<open>submitted_session_after_rerender\<close>), and a manual open always opens
  (\<open>manual_open_opens\<close>).
\<close>

theorem submitted_session_auto_opens_before_rerender:
  "sessionStorage
     (step MarkAsSubmitted (mount \<lparr>autoOpenDelayMs = None, enabledAutoOpen = Some True\<rparr> Map.empty))
     POPUP_SUBMITTED_KEY = Some ''true'' \<and>
   timers (mount \<lparr>autoOpenDelayMs = Some 0, enabledAutoOpen = Some True\<rparr>
             (Map.empty(POPUP_SUBMITTED_KEY \<mapsto> ''true''))) = [(1, 0)] \<and>
   auto_opened (mount \<lparr>autoOpenDelayMs = Some 0, enabledAutoOpen = Some True\<rparr>
                  (Map.empty(POPUP_SUBMITTED_KEY \<mapsto> ''true'')))
     [TimerFires 1] \<and>
   isOpen (run (mount \<lparr>autoOpenDelayMs = Some 0, enabledAutoOpen = Some True\<rparr>
                  (Map.empty(POPUP_SUBMITTED_KEY \<mapsto> ''true'')))
     [TimerFires 1, Rerender \<lparr>autoOpenDelayMs = Some 0, enabledAutoOpen = Some True\<rparr>]) \<and>
   hasSubmitted (run (mount \<lparr>autoOpenDelayMs = Some 0, enabledAutoOpen = Some True\<rparr>
                  (Map.empty(POPUP_SUBMITTED_KEY \<mapsto> ''true'')))
     [TimerFires 1, Rerender \<lparr>autoOpenDelayMs = Some 0, enabledAutoOpen = Some True\<rparr>])"
  by (simp add: mount_def step_def render_def commit_def auto_open_effect_def run_cleanup_def
        clear_timer_def current_deps_def truthy_def Let_def pending_def auto_open_of_def
        delay_of_def)




end
